theory Spec2Isabelle
  imports Complex_Main "HOL-Library.AList" "HOL-Library.Multiset"
begin

section \<open>SimilarityMatcher: the videoToVideo route\<close>

subsection \<open>Data model\<close>

text \<open>
  The type \<open>QueryMatch\<close> of \<^verbatim>\<open>route.ts\<close>. Every optional field is an \<open>option\<close>.
  A score is a JavaScript number; it is modelled as a real (the scores of the vector
  store are finite numbers, on which \<open><\<close> and the sign of a difference agree with the
  reals; NaN is outside the model).
\<close>

record VectorMetadata =
  tl_video_id :: "string option"
  tl_index_id :: "string option"
  scope :: "string option"

record QueryMatch =
  match_id :: string
  score :: "real option"
  metadata :: "VectorMetadata option"
  vector_values :: "real list option"
  resultType :: "string option"

text \<open>\<^verbatim>\<open>current.metadata?.tl_video_id\<close>\<close>

definition tlVideoId :: "QueryMatch \<Rightarrow> string option" where
  "tlVideoId current = (case metadata current of None \<Rightarrow> None | Some md \<Rightarrow> tl_video_id md)"

text \<open>\<^verbatim>\<open>(m.score ?? 0)\<close>\<close>

definition score_or_0 :: "QueryMatch \<Rightarrow> real" where
  "score_or_0 m = (case score m of None \<Rightarrow> 0 | Some s \<Rightarrow> s)"

subsection \<open>The accumulator object of the reduce\<close>

text \<open>
  The accumulator \<^verbatim>\<open>acc: Record<string, QueryMatch>\<close> starts as the object literal
  \<^verbatim>\<open>{}\<close>, an ordinary object whose prototype is \<^verbatim>\<open>Object.prototype\<close>. It is
  modelled by its own properties, an association list in creation order, and by its
  prototype: \<open>None\<close> while the prototype is \<^verbatim>\<open>Object.prototype\<close>, and \<open>Some P\<close>
  once the assignment \<^verbatim>\<open>acc['__proto__'] = P\<close> has replaced it by the match \<open>P\<close>.
\<close>

record acc_object =
  acc_prototype :: "QueryMatch option"
  acc_own :: "(string \<times> QueryMatch) list"

text \<open>
  The values that \<^verbatim>\<open>acc[k]\<close> can give: \<^verbatim>\<open>undefined\<close>, a match, a string, a number,
  or an object that has no property \<^verbatim>\<open>score\<close> (a function of \<^verbatim>\<open>Object.prototype\<close>,
  \<^verbatim>\<open>Object.prototype\<close> itself, an array of vector values, a metadata object with its
  three declared keys).
\<close>

datatype js_value =
    Undefined
  | Match_value QueryMatch
  | Object_without_score
  | String_value string
  | Number_value real

text \<open>\<^verbatim>\<open>!v\<close> is \<open>\<not> truthy_value v\<close>.\<close>

fun truthy_value :: "js_value \<Rightarrow> bool" where
  "truthy_value Undefined = False"
| "truthy_value (Match_value m) = True"
| "truthy_value Object_without_score = True"
| "truthy_value (String_value s) = (s \<noteq> [])"
| "truthy_value (Number_value x) = (x \<noteq> 0)"

text \<open>\<^verbatim>\<open>(v.score ?? 0)\<close> for a value \<open>v\<close> that is not \<^verbatim>\<open>undefined\<close>.\<close>

fun score_of_value :: "js_value \<Rightarrow> real" where
  "score_of_value (Match_value m) = score_or_0 m"
| "score_of_value v = 0"

text \<open>
  The data properties of \<^verbatim>\<open>Object.prototype\<close>: all of them are functions, and all
  are writable. Its one accessor property, \<^verbatim>\<open>__proto__\<close>, is treated apart.
\<close>

definition Object_prototype_names :: "string list" where
  "Object_prototype_names =
     [''constructor'', ''__defineGetter__'', ''__defineSetter__'', ''hasOwnProperty'',
      ''__lookupGetter__'', ''__lookupSetter__'', ''isPrototypeOf'', ''propertyIsEnumerable'',
      ''toString'', ''valueOf'', ''toLocaleString'']"

text \<open>The own properties of a match object, by the fields of the type \<open>QueryMatch\<close>.\<close>

definition own_property_of_match :: "QueryMatch \<Rightarrow> string \<Rightarrow> js_value option" where
  "own_property_of_match P k =
     (if k = ''id'' then Some (String_value (match_id P))
      else if k = ''score'' then map_option Number_value (score P)
      else if k = ''metadata'' then map_option (\<lambda>_. Object_without_score) (metadata P)
      else if k = ''values'' then map_option (\<lambda>_. Object_without_score) (vector_values P)
      else if k = ''resultType'' then map_option String_value (resultType P)
      else None)"

text \<open>
  Reading a key that is not an own property of the accumulator, along its prototype
  chain. The getter of \<^verbatim>\<open>__proto__\<close> gives the prototype of the accumulator.
\<close>

definition inherited_value :: "QueryMatch option \<Rightarrow> string \<Rightarrow> js_value" where
  "inherited_value p k =
     (if k = ''__proto__''
      then (case p of None \<Rightarrow> Object_without_score | Some P \<Rightarrow> Match_value P)
      else (case (case p of None \<Rightarrow> None | Some P \<Rightarrow> own_property_of_match P k) of
              Some v \<Rightarrow> v
            | None \<Rightarrow> if k \<in> set Object_prototype_names then Object_without_score
                      else Undefined))"

text \<open>\<^verbatim>\<open>acc[k]\<close>\<close>

definition acc_get :: "acc_object \<Rightarrow> string \<Rightarrow> js_value" where
  "acc_get acc k =
     (case map_of (acc_own acc) k of
        Some m \<Rightarrow> Match_value m
      | None \<Rightarrow> inherited_value (acc_prototype acc) k)"

text \<open>
  \<^verbatim>\<open>acc[k] = current\<close>. For the key \<^verbatim>\<open>__proto__\<close> the assignment reaches the setter
  of \<^verbatim>\<open>Object.prototype\<close>, which makes \<open>current\<close> the prototype of the accumulator
  and creates no property. For every other key it writes an own property:
  \<open>AList.update\<close> overwrites an existing key in place and appends a new key at the end,
  as property creation does.
\<close>

definition acc_set :: "acc_object \<Rightarrow> string \<Rightarrow> QueryMatch \<Rightarrow> acc_object" where
  "acc_set acc k current =
     (if k = ''__proto__'' \<and> map_of (acc_own acc) k = None
      then acc\<lparr>acc_prototype := Some current\<rparr>
      else acc\<lparr>acc_own := AList.update k current (acc_own acc)\<rparr>)"

text \<open>The object literal \<^verbatim>\<open>{}\<close>.\<close>

definition empty_object :: acc_object where
  "empty_object = \<lparr>acc_prototype = None, acc_own = []\<rparr>"

text \<open>
  The callback of \<^verbatim>\<open>allResults.reduce\<close> (route.ts, lines 68 to 76).
  \<^verbatim>\<open>!tlVideoId\<close> holds for an absent id and for the empty string.
\<close>

definition reduce_step :: "acc_object \<Rightarrow> QueryMatch \<Rightarrow> acc_object" where
  "reduce_step acc current =
     (case tlVideoId current of
        None \<Rightarrow> acc
      | Some k \<Rightarrow>
          if k = [] then acc
          else if \<not> truthy_value (acc_get acc k)
                  \<or> score_of_value (acc_get acc k) < score_or_0 current
               then acc_set acc k current
               else acc)"

definition reduce_all :: "QueryMatch list \<Rightarrow> acc_object" where
  "reduce_all allResults = foldl reduce_step empty_object allResults"

text \<open>
  \<^verbatim>\<open>Object.values\<close> lists own properties only: those whose key is an array index (the
  canonical decimal numeral of an integer below \<open>2^32 - 1\<close>) first, in ascending numeric
  order, and then the other keys in creation order.
\<close>

definition is_digit :: "char \<Rightarrow> bool" where
  "is_digit c = (48 \<le> (of_char c :: nat) \<and> (of_char c :: nat) \<le> 57)"

definition digits_value :: "string \<Rightarrow> nat" where
  "digits_value k = foldl (\<lambda>n c. 10 * n + ((of_char c :: nat) - 48)) 0 k"

definition is_array_index :: "string \<Rightarrow> bool" where
  "is_array_index k =
     (k \<noteq> [] \<and> list_all is_digit k \<and> (k = ''0'' \<or> hd k \<noteq> CHR ''0'')
      \<and> digits_value k < 4294967295)"

definition Object_values :: "acc_object \<Rightarrow> QueryMatch list" where
  "Object_values acc =
     map snd (sort_key (\<lambda>p. digits_value (fst p))
                (filter (\<lambda>p. is_array_index (fst p)) (acc_own acc))
              @ filter (\<lambda>p. \<not> is_array_index (fst p)) (acc_own acc))"

definition uniqueResults :: "QueryMatch list \<Rightarrow> QueryMatch list" where
  "uniqueResults allResults = Object_values (reduce_all allResults)"

text \<open>
  \<^verbatim>\<open>uniqueResults.sort((a, b) => (b.score ?? 0) - (a.score ?? 0))\<close>: the sort of
  the language is stable, and the comparator orders by descending score, so it is the
  stable insertion sort on the negated score.
\<close>

definition sortedResults :: "QueryMatch list \<Rightarrow> QueryMatch list" where
  "sortedResults allResults = sort_key (\<lambda>m. - score_or_0 m) (uniqueResults allResults)"

text \<open>The matches of one target video, in merge order.\<close>

definition group_of :: "string \<Rightarrow> QueryMatch list \<Rightarrow> QueryMatch list" where
  "group_of k ms = filter (\<lambda>m. tlVideoId m = Some k) ms"

definition mk_match :: "string \<Rightarrow> string \<Rightarrow> real \<Rightarrow> QueryMatch" where
  "mk_match i v s =
     \<lparr>match_id = i, score = Some s,
      metadata = Some \<lparr>tl_video_id = Some v, tl_index_id = None, scope = Some ''clip''\<rparr>,
      vector_values = None, resultType = Some ''clip''\<rparr>"

definition dedup_law_input :: "QueryMatch list" where
  "dedup_law_input = [mk_match ''m1'' ''A'' 0.9, mk_match ''m2'' ''A'' 0.95, mk_match ''m3'' ''B'' 0.5]"

definition absent_score_input :: "QueryMatch list" where
  "absent_score_input =
     [(mk_match ''m1'' ''A'' 0.3), (mk_match ''m2'' ''A'' 0)\<lparr>score := None\<rparr>,
      (mk_match ''m3'' ''B'' 0)\<lparr>score := None\<rparr>, mk_match ''m4'' ''C'' 0.2]"

text \<open>
  \<open>is_first_max m g\<close>: in the list \<open>g\<close>, the match \<open>m\<close> has the maximum score, and it is
  the first one that has it: everything before it scores strictly less.
\<close>

definition is_first_max :: "QueryMatch \<Rightarrow> QueryMatch list \<Rightarrow> bool" where
  "is_first_max m g = (\<exists>pre post. g = pre @ m # post
      \<and> (\<forall>x\<in>set pre. score_or_0 x < score_or_0 m)
      \<and> (\<forall>x\<in>set post. score_or_0 x \<le> score_or_0 m))"

text \<open>
  Target video ids that name a member of \<^verbatim>\<open>Object.prototype\<close>, and merged lists in
  which no match has such an id.
\<close>

definition names_prototype_member :: "string \<Rightarrow> bool" where
  "names_prototype_member k = (k = ''__proto__'' \<or> k \<in> set Object_prototype_names)"

definition ordinary_ids :: "QueryMatch list \<Rightarrow> bool" where
  "ordinary_ids ms =
     list_all (\<lambda>m. case tlVideoId m of None \<Rightarrow> True | Some k \<Rightarrow> \<not> names_prototype_member k) ms"

text \<open>Two merged lists in which a target video id names a member of \<^verbatim>\<open>Object.prototype\<close>.\<close>

definition proto_id_input :: "QueryMatch list" where
  "proto_id_input = [mk_match ''m1'' ''__proto__'' 0.9]"

definition inherited_id_input :: "QueryMatch list" where
  "inherited_id_input =
     [mk_match ''m1'' ''A'' 0.9, (mk_match ''m2'' ''constructor'' 0)\<lparr>score := None\<rparr>,
      mk_match ''m3'' ''B'' 0.5]"

text \<open>
  The invariant of the reduce on a list of ordinary ids, after the matches \<open>xs\<close> have
  been folded into \<open>A\<close>.
\<close>

definition acc_inv :: "QueryMatch list \<Rightarrow> acc_object \<Rightarrow> bool" where
  "acc_inv xs A = (acc_prototype A = None \<and> distinct (map fst (acc_own A))
     \<and> (\<forall>p\<in>set (acc_own A). fst p \<noteq> [] \<and> tlVideoId (snd p) = Some (fst p))
     \<and> (\<forall>k. k \<noteq> [] \<longrightarrow> (if group_of k xs = [] then map_of (acc_own A) k = None
            else \<exists>m. map_of (acc_own A) k = Some m \<and> is_first_max m (group_of k xs))))"

text \<open>
  The invariant of the reduce on every list: the own properties are matches of their
  key, a kept match scores at least as much as every match of positive score in its
  group, and a group without a kept match has no match of positive score, the groups
  of the empty id and of \<^verbatim>\<open>__proto__\<close> apart.
\<close>

definition kept_inv :: "QueryMatch list \<Rightarrow> acc_object \<Rightarrow> bool" where
  "kept_inv xs A = (distinct (map fst (acc_own A))
     \<and> (\<forall>p\<in>set (acc_own A). fst p \<noteq> [] \<and> tlVideoId (snd p) = Some (fst p))
     \<and> (\<forall>k m. map_of (acc_own A) k = Some m \<longrightarrow>
            (\<forall>x\<in>set (group_of k xs). 0 < score_or_0 x \<longrightarrow> score_or_0 x \<le> score_or_0 m))
     \<and> (\<forall>k. k \<noteq> [] \<and> k \<noteq> ''__proto__'' \<and> map_of (acc_own A) k = None \<longrightarrow>
            (\<forall>x\<in>set (group_of k xs). \<not> 0 < score_or_0 x)))"

section \<open>HashtagClassifier: parseHashtags\<close>

subsection \<open>Text normalisation\<close>

text \<open>
  A JavaScript string is a sequence of code units; the model is \<open>string\<close>, whose
  characters are read as the code units below 256. On these, the class \<^verbatim>\<open>\s\<close> of a
  regular expression holds the code units 9 to 13, 32 and 160, and \<^verbatim>\<open>toLowerCase\<close>
  adds 32 to the code units 65 to 90 and 192 to 222 other than 215.
\<close>

definition replace_newlines :: "string \<Rightarrow> string" where
  "replace_newlines s = map (\<lambda>c. if c = CHR 0x0A then CHR '' '' else c) s"

definition is_space :: "char \<Rightarrow> bool" where
  "is_space c = ((of_char c :: nat) \<in> {9, 10, 11, 12, 13, 32, 160})"

text \<open>
  \<^verbatim>\<open>cleanText.split(/\s+/)\<close>: the pieces between maximal runs of white space. A run
  at either end of the text leaves an empty piece there, and the empty text gives one
  empty piece. The second argument tells whether the previous code unit was white space.
\<close>

fun split_go :: "string \<Rightarrow> bool \<Rightarrow> string \<Rightarrow> string list" where
  "split_go cur sep [] = [rev cur]"
| "split_go cur sep (c # cs) =
     (if is_space c
      then (if sep then split_go cur True cs else rev cur # split_go [] True cs)
      else split_go (c # cur) False cs)"

definition split_whitespace :: "string \<Rightarrow> string list" where
  "split_whitespace s = split_go [] False s"

definition startsWith_hash :: "string \<Rightarrow> bool" where
  "startsWith_hash tag = (case tag of [] \<Rightarrow> False | c # _ \<Rightarrow> c = CHR ''#'')"

definition hashtags_of :: "string \<Rightarrow> string list" where
  "hashtags_of hashtagText = filter startsWith_hash (split_whitespace (replace_newlines hashtagText))"

definition toLowerCase_char :: "char \<Rightarrow> char" where
  "toLowerCase_char c =
     (let n = (of_char c :: nat)
      in if (65 \<le> n \<and> n \<le> 90) \<or> (192 \<le> n \<and> n \<le> 222 \<and> n \<noteq> 215)
         then char_of (n + 32) else c)"

definition toLowerCase :: "string \<Rightarrow> string" where
  "toLowerCase s = map toLowerCase_char s"

text \<open>\<^verbatim>\<open>tag.slice(1).toLowerCase()\<close>\<close>

definition cleanTag :: "string \<Rightarrow> string" where
  "cleanTag tag = toLowerCase (drop 1 tag)"

subsection \<open>Keyword lists\<close>

definition demographicsKeywords :: "string list" where
  "demographicsKeywords = [''male'', ''female'', ''18-25'', ''25-34'', ''35-44'', ''45-54'', ''55+'']"

definition sectorKeywords :: "string list" where
  "sectorKeywords = [''beauty'', ''fashion'', ''tech'', ''travel'', ''cpg'', ''food'', ''bev'', ''retail'']"

definition emotionKeywords :: "string list" where
  "emotionKeywords = [''happy'', ''positive'', ''happypositive'', ''happy/positive'', ''exciting'',
     ''relaxing'', ''inspiring'', ''serious'', ''festive'', ''calm'', ''determined'']"

definition locationKeywords :: "string list" where
  "locationKeywords = [''seoul'', ''dubai'', ''doha'', ''newyork'', ''new york'', ''paris'', ''tokyo'',
     ''london'', ''berlin'', ''lasvegas'', ''las vegas'', ''france'', ''korea'', ''qatar'', ''uae'',
     ''usa'', ''bocachica'', ''bocachicabeach'', ''marathon'']"

definition brandKeywords :: "string list" where
  "brandKeywords = [''fentybeauty'', ''adidas'', ''nike'', ''spacex'', ''apple'', ''microsoft'',
     ''google'', ''amazon'', ''ferrari'', ''heineken'', ''redbullracing'', ''redbull'', ''sailgp'',
     ''fifaworldcup'', ''fifa'', ''tourdefrance'', ''nttdata'', ''oracle'']"

subsection \<open>Classification\<close>

text \<open>The object \<^verbatim>\<open>categoryTags\<close>: one list of tokens per category.\<close>

record categoryTags =
  ct_demographics :: "string list"
  ct_sector :: "string list"
  ct_emotions :: "string list"
  ct_locations :: "string list"
  ct_brands :: "string list"

definition empty_categoryTags :: categoryTags where
  "empty_categoryTags =
     \<lparr>ct_demographics = [], ct_sector = [], ct_emotions = [], ct_locations = [], ct_brands = []\<rparr>"

text \<open>
  The body of the loop over the hashtags in \<^verbatim>\<open>apiHooks.ts\<close>: five tests in order,
  each ending the iteration with \<^verbatim>\<open>continue\<close>.
\<close>

definition classify_tag :: "categoryTags \<Rightarrow> string \<Rightarrow> categoryTags" where
  "classify_tag ct tag =
     (let cleanTag = cleanTag tag in
      if cleanTag \<in> set demographicsKeywords
      then ct\<lparr>ct_demographics := ct_demographics ct @ [cleanTag]\<rparr>
      else if cleanTag \<in> set sectorKeywords
      then ct\<lparr>ct_sector := ct_sector ct @ [cleanTag]\<rparr>
      else if cleanTag \<in> set emotionKeywords
      then ct\<lparr>ct_emotions := ct_emotions ct @ [cleanTag]\<rparr>
      else if cleanTag \<in> set locationKeywords
      then ct\<lparr>ct_locations := ct_locations ct @ [cleanTag]\<rparr>
      else if cleanTag \<in> set brandKeywords
      then ct\<lparr>ct_brands := ct_brands ct @ [cleanTag]\<rparr>
      else ct)"

text \<open>
  The body of the same loop in \<^verbatim>\<open>VideoUploader.tsx\<close>, written there as one
  \<^verbatim>\<open>if ... else if\<close> chain.
\<close>

definition classify_tag_uploader :: "categoryTags \<Rightarrow> string \<Rightarrow> categoryTags" where
  "classify_tag_uploader ct tag =
     (let cleanTag = cleanTag tag in
      if cleanTag \<in> set demographicsKeywords
      then ct\<lparr>ct_demographics := ct_demographics ct @ [cleanTag]\<rparr>
      else if cleanTag \<in> set sectorKeywords
      then ct\<lparr>ct_sector := ct_sector ct @ [cleanTag]\<rparr>
      else if cleanTag \<in> set emotionKeywords
      then ct\<lparr>ct_emotions := ct_emotions ct @ [cleanTag]\<rparr>
      else if cleanTag \<in> set locationKeywords
      then ct\<lparr>ct_locations := ct_locations ct @ [cleanTag]\<rparr>
      else if cleanTag \<in> set brandKeywords
      then ct\<lparr>ct_brands := ct_brands ct @ [cleanTag]\<rparr>
      else ct)"

text \<open>The filter that computes \<^verbatim>\<open>unclassifiedTags\<close>.\<close>

definition is_unclassified :: "string \<Rightarrow> bool" where
  "is_unclassified tag =
     (let cleanTag = cleanTag tag in
      cleanTag \<notin> set demographicsKeywords \<and> cleanTag \<notin> set sectorKeywords
      \<and> cleanTag \<notin> set emotionKeywords \<and> cleanTag \<notin> set locationKeywords
      \<and> cleanTag \<notin> set brandKeywords)"

text \<open>
  The two fallback statements. The first one removes the token it uses from
  \<^verbatim>\<open>unclassifiedTags\<close> (\<^verbatim>\<open>shift\<close>); the second reads the list that is left.
\<close>

definition fallback_locations :: "categoryTags \<times> string list \<Rightarrow> categoryTags \<times> string list" where
  "fallback_locations p =
     (case p of (ct, unclassifiedTags) \<Rightarrow>
        (case unclassifiedTags of
           [] \<Rightarrow> (ct, unclassifiedTags)
         | t # rest \<Rightarrow>
             if ct_locations ct = []
             then (ct\<lparr>ct_locations := ct_locations ct @ [cleanTag t]\<rparr>, rest)
             else (ct, unclassifiedTags)))"

definition fallback_brands :: "categoryTags \<times> string list \<Rightarrow> categoryTags" where
  "fallback_brands p =
     (case p of (ct, unclassifiedTags) \<Rightarrow>
        (case unclassifiedTags of
           [] \<Rightarrow> ct
         | t # rest \<Rightarrow>
             if ct_brands ct = []
             then ct\<lparr>ct_brands := ct_brands ct @ [cleanTag t]\<rparr>
             else ct))"

text \<open>The final content of \<^verbatim>\<open>categoryTags\<close>, in each of the two copies of the function.\<close>

definition final_categoryTags :: "string \<Rightarrow> categoryTags" where
  "final_categoryTags hashtagText =
     (let hashtags = hashtags_of hashtagText;
          ct = foldl classify_tag empty_categoryTags hashtags;
          unclassifiedTags = filter is_unclassified hashtags
      in fallback_brands (fallback_locations (ct, unclassifiedTags)))"

definition final_categoryTags_uploader :: "string \<Rightarrow> categoryTags" where
  "final_categoryTags_uploader hashtagText =
     (let hashtags = hashtags_of hashtagText;
          ct = foldl classify_tag_uploader empty_categoryTags hashtags;
          unclassifiedTags = filter is_unclassified hashtags
      in fallback_brands (fallback_locations (ct, unclassifiedTags)))"

subsection \<open>The metadata record\<close>

record ClassifiedMetadata =
  source :: string
  sector :: string
  emotions :: string
  brands :: string
  locations :: string
  demographics :: string

text \<open>\<^verbatim>\<open>tags.join(', ')\<close>\<close>

fun join_comma :: "string list \<Rightarrow> string" where
  "join_comma [] = []"
| "join_comma [t] = t"
| "join_comma (t # u # ts) = t @ '', '' @ join_comma (u # ts)"

text \<open>
  The last loop: every field starts as the empty string, and a category whose list is
  not empty overwrites its field with the joined list. \<^verbatim>\<open>source\<close> has no list.
\<close>

definition field_of :: "string list \<Rightarrow> string" where
  "field_of tags = (if length tags > 0 then join_comma tags else [])"

definition to_metadata :: "categoryTags \<Rightarrow> ClassifiedMetadata" where
  "to_metadata ct =
     \<lparr>source = [], sector = field_of (ct_sector ct), emotions = field_of (ct_emotions ct),
      brands = field_of (ct_brands ct), locations = field_of (ct_locations ct),
      demographics = field_of (ct_demographics ct)\<rparr>"

definition parseHashtags :: "string \<Rightarrow> ClassifiedMetadata" where
  "parseHashtags hashtagText = to_metadata (final_categoryTags hashtagText)"

definition parseHashtags_uploader :: "string \<Rightarrow> ClassifiedMetadata" where
  "parseHashtags_uploader hashtagText = to_metadata (final_categoryTags_uploader hashtagText)"

subsection \<open>Categories and their lists\<close>

datatype category = Demographics | Sector | Emotions | Locations | Brands

fun bucket :: "categoryTags \<Rightarrow> category \<Rightarrow> string list" where
  "bucket ct Demographics = ct_demographics ct"
| "bucket ct Sector = ct_sector ct"
| "bucket ct Emotions = ct_emotions ct"
| "bucket ct Locations = ct_locations ct"
| "bucket ct Brands = ct_brands ct"

fun keywords_of :: "category \<Rightarrow> string list" where
  "keywords_of Demographics = demographicsKeywords"
| "keywords_of Sector = sectorKeywords"
| "keywords_of Emotions = emotionKeywords"
| "keywords_of Locations = locationKeywords"
| "keywords_of Brands = brandKeywords"

text \<open>The tokens of a text, and those that match no keyword list, in their order.\<close>

definition tokens_of :: "string \<Rightarrow> string list" where
  "tokens_of hashtagText = map cleanTag (hashtags_of hashtagText)"

definition unclassified_tokens :: "string \<Rightarrow> string list" where
  "unclassified_tokens hashtagText = map cleanTag (filter is_unclassified (hashtags_of hashtagText))"

section \<open>SimilarityMatcher: the POST handler\<close>

text \<open>
  An awaited call either returns a value or throws; a thrown error carries its message.
\<close>

datatype 'a outcome = Throws string | Returns 'a

text \<open>
  The argument of \<^verbatim>\<open>index.query\<close> and its answer. The handler reads the answer's
  \<^verbatim>\<open>matches\<close>; the field is \<open>None\<close> when the answer has no such array.
\<close>

record QueryRequest =
  vector :: "real list"
  query_filter :: "(string \<times> string) list"
  topK :: nat
  includeMetadata :: bool
  includeValues :: "bool option"

record QueryResponse =
  matches :: "QueryMatch list option"

text \<open>
  The vector store is a collaborator: \<open>query n req\<close> is the outcome of the \<open>n\<close>-th call
  of \<^verbatim>\<open>index.query\<close> made by the handler (counted from 0), with request \<open>req\<close>.
\<close>

type_synonym vector_store = "nat \<Rightarrow> QueryRequest \<Rightarrow> QueryResponse outcome"

definition zero_vector :: "real list" where
  "zero_vector = replicate 1024 0"

definition source_request :: "string \<Rightarrow> QueryRequest" where
  "source_request videoId =
     \<lparr>vector = zero_vector,
      query_filter = [(''tl_video_id'', videoId), (''scope'', ''clip'')],
      topK = 100, includeMetadata = True, includeValues = Some True\<rparr>"

text \<open>\<^verbatim>\<open>originalClip.values || new Array(1024).fill(0)\<close>: every array is truthy.\<close>

definition fanout_request :: "string \<Rightarrow> QueryMatch \<Rightarrow> QueryRequest" where
  "fanout_request indexId originalClip =
     \<lparr>vector = (case vector_values originalClip of None \<Rightarrow> zero_vector | Some v \<Rightarrow> v),
      query_filter = [(''tl_index_id'', indexId), (''scope'', ''clip'')],
      topK = 5, includeMetadata = True, includeValues = None\<rparr>"

text \<open>
  The loop over the clips of the source video: one awaited query per clip, in order; the
  first query that throws ends the loop with that error.
\<close>

fun fan_out :: "vector_store \<Rightarrow> string \<Rightarrow> nat \<Rightarrow> QueryMatch list \<Rightarrow> QueryResponse list outcome" where
  "fan_out query indexId n [] = Returns []"
| "fan_out query indexId n (originalClip # clips) =
     (case query n (fanout_request indexId originalClip) of
        Throws e \<Rightarrow> Throws e
      | Returns queryResult \<Rightarrow>
          (case fan_out query indexId (Suc n) clips of
             Throws e \<Rightarrow> Throws e
           | Returns similarResults \<Rightarrow> Returns (queryResult # similarResults)))"

text \<open>The merge: the matches of every answer that has them, each marked as a clip result.\<close>

definition formattedMatches :: "QueryResponse \<Rightarrow> QueryMatch list" where
  "formattedMatches result =
     (case matches result of
        None \<Rightarrow> []
      | Some ms \<Rightarrow> map (\<lambda>m. m\<lparr>resultType := Some ''clip''\<rparr>) ms)"

definition merge_results :: "QueryResponse list \<Rightarrow> QueryMatch list" where
  "merge_results similarResults = foldl (\<lambda>allResults result. allResults @ formattedMatches result) [] similarResults"

text \<open>What the handler answers: the ranked list, or the error body with status 500.\<close>

datatype response = Json_ok "QueryMatch list" | Json_error string nat

definition error_500 :: response where
  "error_500 = Json_error ''Failed to process embedding search'' 500"

text \<open>
  The handler. Everything runs inside one \<^verbatim>\<open>try\<close>; the \<^verbatim>\<open>catch\<close> answers
  \<open>error_500\<close>. Reading \<^verbatim>\<open>originalClipQuery.matches.length\<close> throws when the answer
  has no matches array.
\<close>

definition POST :: "vector_store \<Rightarrow> string \<Rightarrow> string \<Rightarrow> response" where
  "POST query videoId indexId =
     (case query 0 (source_request videoId) of
        Throws e \<Rightarrow> error_500
      | Returns originalClipQuery \<Rightarrow>
          (case matches originalClipQuery of
             None \<Rightarrow> error_500
           | Some clips \<Rightarrow>
               (case (if length clips > 0 then fan_out query indexId 1 clips else Returns []) of
                  Throws e \<Rightarrow> error_500
                | Returns similarResults \<Rightarrow> Json_ok (sortedResults (merge_results similarResults)))))"

text \<open>A store for the examples: the source video has two clips, and the second fan-out query fails.\<close>

definition failing_store :: vector_store where
  "failing_store n req =
     (if n = 0 then Returns \<lparr>matches = Some [mk_match ''c1'' ''S'' 1, mk_match ''c2'' ''S'' 1]\<rparr>
      else if n = 1 then Returns \<lparr>matches = Some [mk_match ''m1'' ''A'' 0.9]\<rparr>
      else Throws ''upstream error'')"

text \<open>A store whose queries all succeed: the source video has one clip.\<close>

definition working_store :: vector_store where
  "working_store n req =
     (if n = 0 then Returns \<lparr>matches = Some [mk_match ''c1'' ''S'' 1]\<rparr>
      else Returns \<lparr>matches = Some [mk_match ''m1'' ''A'' 0.9]\<rparr>)"

section \<open>Embedding storage after an upload: processCompletedVideo\<close>

text \<open>
  The value \<^verbatim>\<open>{ success, message }\<close> that \<^verbatim>\<open>getAndStoreEmbeddings\<close> resolves
  to. The variable \<^verbatim>\<open>embeddingResult\<close> starts as \<^verbatim>\<open>null\<close>, and the body of
  the store's answer may be any JSON, so the result is an \<open>option\<close>; \<open>success\<close> is the
  truthiness of the field.
\<close>

record EmbeddingResult =
  success :: bool
  message :: "string option"


subsection \<open>getAndStoreEmbeddings\<close>

text \<open>
  What the function meets: the details of the video (\<open>None\<close> for a \<^verbatim>\<open>null\<close> answer),
  and the answer of \<^verbatim>\<open>/api/vectors/store\<close>.
\<close>

record VideoEmbedding =
  segments_length :: "nat option"

record VideoDetails =
  embedding :: "VideoEmbedding option"

record StoreResponse =
  ok :: bool
  json :: "EmbeddingResult option outcome"

record EmbeddingEnv =
  fetchVideoDetails :: "VideoDetails option outcome"
  store_fetch :: "StoreResponse outcome"

definition failure :: "string \<Rightarrow> EmbeddingResult option" where
  "failure msg = Some \<lparr>success = False, message = Some msg\<rparr>"

text \<open>
  The function of \<^verbatim>\<open>apiHooks.ts\<close>. Its whole body is inside \<^verbatim>\<open>try\<close>, every
  call is awaited there, and the \<^verbatim>\<open>catch\<close> returns a failure with the message of
  the error: it never throws. Reading \<^verbatim>\<open>videoDetails._id\<close> of a \<^verbatim>\<open>null\<close>
  answer throws inside the \<^verbatim>\<open>try\<close>.
\<close>

definition getAndStoreEmbeddings :: "EmbeddingEnv \<Rightarrow> EmbeddingResult option outcome" where
  "getAndStoreEmbeddings env =
     (case fetchVideoDetails env of
        Throws e \<Rightarrow> Returns (failure e)
      | Returns None \<Rightarrow> Returns (failure ''Cannot read properties of null (reading '_id')'')
      | Returns (Some videoDetails) \<Rightarrow>
          (case embedding videoDetails of
             None \<Rightarrow> Returns (failure ''No embedding data found'')
           | Some emb \<Rightarrow>
               (case segments_length emb of
                  None \<Rightarrow> Returns (failure ''Invalid embedding structure - missing segments'')
                | Some n \<Rightarrow>
                    if n = 0 then Returns (failure ''Invalid embedding structure - missing segments'')
                    else (case store_fetch env of
                            Throws e \<Rightarrow> Returns (failure e)
                          | Returns resp \<Rightarrow>
                              if \<not> ok resp then Returns (failure ''Failed to store embedding'')
                              else (case json resp of
                                      Throws e \<Rightarrow> Returns (failure e)
                                    | Returns result \<Rightarrow> Returns result)))))"

text \<open>
  The function of the same name inside \<^verbatim>\<open>VideoUploader.tsx\<close>, which is the one
  \<^verbatim>\<open>processCompletedVideo\<close> calls. It does not look at the segments, and it returns
  \<^verbatim>\<open>response.json()\<close> without awaiting it, so an unreadable body rejects the
  promise it returns. The status text of the failed answer is a parameter.
\<close>

definition getAndStoreEmbeddings_uploader ::
    "string \<Rightarrow> EmbeddingEnv \<Rightarrow> EmbeddingResult option outcome" where
  "getAndStoreEmbeddings_uploader statusText env =
     (case fetchVideoDetails env of
        Throws e \<Rightarrow> Returns (failure e)
      | Returns None \<Rightarrow> Returns (failure ''No embedding data found'')
      | Returns (Some videoDetails) \<Rightarrow>
          (case embedding videoDetails of
             None \<Rightarrow> Returns (failure ''No embedding data found'')
           | Some emb \<Rightarrow>
               (case store_fetch env of
                  Throws e \<Rightarrow> Returns (failure e)
                | Returns resp \<Rightarrow>
                    if \<not> ok resp then Returns (failure (''Failed to store embedding: '' @ statusText))
                    else json resp)))"

subsection \<open>The retry loop\<close>









subsection \<open>processCompletedVideo\<close>

text \<open>
  The collaborators of one run: the answer of \<^verbatim>\<open>/api/generate\<close> (its \<^verbatim>\<open>data\<close>
  field, when the answer is fine and readable), the uploader's own
  \<^verbatim>\<open>updateVideoMetadata\<close>, which returns a boolean and never throws, and what
  each call of the uploader's \<^verbatim>\<open>getAndStoreEmbeddings\<close> meets: the answers to its
  two requests at the \<open>n\<close>-th call, and the status text of the store.
\<close>





















section \<open>MetadataIngestionScheduler: the ads library page\<close>

subsection \<open>Videos and the test for missing metadata\<close>

text \<open>
  A video as the page receives it: its id and, when present, its \<^verbatim>\<open>user_metadata\<close>,
  an object from keys to strings, kept as the list of its entries. A value is truthy
  when it is present and not the empty string.
\<close>

record VideoData =
  video_id :: string
  user_metadata :: "(string \<times> string) list option"

definition truthy :: "string option \<Rightarrow> bool" where
  "truthy v = (case v of None \<Rightarrow> False | Some s \<Rightarrow> s \<noteq> [])"

text \<open>
  The condition that occurs three times in the page (in
  \<^verbatim>\<open>processVideoMetadataSingle\<close>, in \<^verbatim>\<open>filterVideosNeedingMetadata\<close> and in
  \<^verbatim>\<open>processVideoMetadata\<close>): no \<^verbatim>\<open>user_metadata\<close>, or no key in it, or none of
  the keys \<^verbatim>\<open>source\<close>, \<^verbatim>\<open>topic_category\<close>, \<^verbatim>\<open>emotions\<close>, \<^verbatim>\<open>brands\<close>,
  \<^verbatim>\<open>locations\<close> with a truthy value.
\<close>

definition metadata_missing :: "VideoData \<Rightarrow> bool" where
  "metadata_missing video =
     (case user_metadata video of
        None \<Rightarrow> True
      | Some um \<Rightarrow>
          length um = 0
          \<or> (\<not> truthy (map_of um ''source'') \<and> \<not> truthy (map_of um ''topic_category'')
             \<and> \<not> truthy (map_of um ''emotions'') \<and> \<not> truthy (map_of um ''brands'')
             \<and> \<not> truthy (map_of um ''locations'')))"

definition filterVideosNeedingMetadata ::
    "VideoData list \<Rightarrow> string set \<Rightarrow> string list \<Rightarrow> VideoData list" where
  "filterVideosNeedingMetadata videos processedIds inProcessingIds =
     filter (\<lambda>video. video_id video \<notin> processedIds
                    \<and> video_id video \<notin> set inProcessingIds
                    \<and> metadata_missing video) videos"

subsection \<open>State, collaborators and the log of calls\<close>

text \<open>
  The component state that the scheduler writes, and a log of the calls it makes to its
  collaborators and of the items it updates on the page, in order.
\<close>

datatype call =
    Generate string
  | Persist string string ClassifiedMetadata
  | UiUpdate string ClassifiedMetadata

record scheduler_state =
  processedVideoIds :: "string set"
  videosInProcessing :: "string list"
  calls :: "call list"

text \<open>
  The collaborators of \<^verbatim>\<open>apiHooks.ts\<close>: \<^verbatim>\<open>generateMetadata\<close> returns the hashtag
  text or throws; \<^verbatim>\<open>updateVideoMetadata\<close> throws on an answer that is not fine and
  otherwise returns a boolean, which is false when the body says
  \<^verbatim>\<open>success: false\<close>.
\<close>

record collaborators =
  generateMetadata :: "string \<Rightarrow> string outcome"
  updateVideoMetadata :: "string \<Rightarrow> string \<Rightarrow> ClassifiedMetadata \<Rightarrow> bool outcome"

text \<open>
  A callback sees the state of the render that created it: \<^verbatim>\<open>processedVideoIds\<close>
  and \<^verbatim>\<open>videosInProcessing\<close> as they were then. The state setters, given a function,
  apply it to the current state.
\<close>

record closure =
  seen_processedVideoIds :: "string set"
  seen_videosInProcessing :: "string list"

definition remove_from_processing :: "string \<Rightarrow> scheduler_state \<Rightarrow> scheduler_state" where
  "remove_from_processing videoId st =
     st\<lparr>videosInProcessing := filter (\<lambda>i. i \<noteq> videoId) (videosInProcessing st)\<rparr>"

subsection \<open>processVideoMetadataSingle\<close>

text \<open>
  The function is asynchronous; it is cut at its two \<^verbatim>\<open>await\<close>s. After each part the
  operation is waiting for \<^verbatim>\<open>generateMetadata\<close>, waiting for
  \<^verbatim>\<open>updateVideoMetadata\<close> (with the metadata it sent), or settled with its boolean.
\<close>

datatype phase = AwaitGenerate | AwaitPersist ClassifiedMetadata | Settled bool

text \<open>
  The part before the first \<^verbatim>\<open>await\<close>: the two early returns, and the test for
  missing metadata; a video that has metadata is marked as processed.
\<close>

definition single_start ::
    "string \<Rightarrow> closure \<Rightarrow> VideoData \<Rightarrow> scheduler_state \<Rightarrow> phase \<times> scheduler_state" where
  "single_start adsIndexId cl video st =
     (let videoId = video_id video in
      if adsIndexId = [] then (Settled False, st)
      else if videoId \<in> seen_processedVideoIds cl \<or> videoId \<in> set (seen_videosInProcessing cl)
      then (Settled False, st)
      else if metadata_missing video
      then (AwaitGenerate,
            st\<lparr>videosInProcessing := videosInProcessing st @ [videoId],
               calls := calls st @ [Generate videoId]\<rparr>)
      else (Settled False, st\<lparr>processedVideoIds := insert videoId (processedVideoIds st)\<rparr>))"

text \<open>
  The part between the two \<^verbatim>\<open>await\<close>s, given the outcome of \<^verbatim>\<open>generateMetadata\<close>:
  an error is caught, and an empty text is not processed; both remove the id from
  \<^verbatim>\<open>videosInProcessing\<close> and give \<^verbatim>\<open>false\<close>.
\<close>

definition single_generated ::
    "string \<Rightarrow> VideoData \<Rightarrow> string outcome \<Rightarrow> scheduler_state \<Rightarrow> phase \<times> scheduler_state" where
  "single_generated adsIndexId video generated st =
     (let videoId = video_id video in
      case generated of
        Throws e \<Rightarrow> (Settled False, remove_from_processing videoId st)
      | Returns hashtagText \<Rightarrow>
          if hashtagText \<noteq> []
          then (let md = parseHashtags hashtagText
                in (AwaitPersist md,
                    st\<lparr>calls := calls st @ [Persist videoId adsIndexId md]\<rparr>))
          else (Settled False, remove_from_processing videoId st))"

text \<open>
  The part after the second \<^verbatim>\<open>await\<close>, given the outcome of
  \<^verbatim>\<open>updateVideoMetadata\<close>: an error is caught; a returned boolean is not looked at.
\<close>

definition single_persisted ::
    "VideoData \<Rightarrow> ClassifiedMetadata \<Rightarrow> bool outcome \<Rightarrow> scheduler_state \<Rightarrow> phase \<times> scheduler_state" where
  "single_persisted video md persisted_result st =
     (let videoId = video_id video in
      case persisted_result of
        Throws e \<Rightarrow> (Settled False, remove_from_processing videoId st)
      | Returns b \<Rightarrow>
          (Settled True,
           remove_from_processing videoId
             (st\<lparr>calls := calls st @ [UiUpdate videoId md],
                 processedVideoIds := insert videoId (processedVideoIds st)\<rparr>)))"

text \<open>One operation run from start to end with nothing in between.\<close>

definition processVideoMetadataSingle ::
    "collaborators \<Rightarrow> string \<Rightarrow> closure \<Rightarrow> VideoData \<Rightarrow> scheduler_state \<Rightarrow> bool \<times> scheduler_state" where
  "processVideoMetadataSingle co adsIndexId cl video st =
     (case single_start adsIndexId cl video st of
        (Settled b, st1) \<Rightarrow> (b, st1)
      | (AwaitPersist m, st1) \<Rightarrow> (False, st1)
      | (AwaitGenerate, st1) \<Rightarrow>
          (case single_generated adsIndexId video (generateMetadata co (video_id video)) st1 of
             (Settled b, st2) \<Rightarrow> (b, st2)
           | (AwaitGenerate, st2) \<Rightarrow> (False, st2)
           | (AwaitPersist md, st2) \<Rightarrow>
               (case single_persisted video md
                       (updateVideoMetadata co (video_id video) adsIndexId md) st2 of
                  (Settled b, st3) \<Rightarrow> (b, st3)
                | (ph, st3) \<Rightarrow> (False, st3))))"

subsection \<open>processVideoMetadata: eligibility and batches\<close>

text \<open>An entry of \<^verbatim>\<open>recentUploads\<close>: the id of an uploaded video and its indexing status.\<close>

record upload =
  upload_id :: string
  upload_status :: string

definition isStillIndexing :: "upload list \<Rightarrow> VideoData \<Rightarrow> bool" where
  "isStillIndexing recentUploads video =
     list_ex (\<lambda>uploadingVideo. upload_id uploadingVideo = video_id video
                 \<and> upload_status uploadingVideo \<noteq> ''ready'') recentUploads"

definition videosNeedingMetadata :: "closure \<Rightarrow> upload list \<Rightarrow> VideoData list \<Rightarrow> VideoData list" where
  "videosNeedingMetadata cl recentUploads videos =
     filter (\<lambda>video.
        if video_id video \<in> seen_processedVideoIds cl \<or> video_id video \<in> set (seen_videosInProcessing cl)
        then False
        else if isStillIndexing recentUploads video then False
        else metadata_missing video) videos"

definition CONCURRENCY_LIMIT :: nat where
  "CONCURRENCY_LIMIT = 10"

text \<open>\<^verbatim>\<open>videosNeedingMetadata.slice(i, i + limit)\<close>\<close>

definition batch_at :: "nat \<Rightarrow> nat \<Rightarrow> 'a list \<Rightarrow> 'a list" where
  "batch_at limit i vs = take limit (drop i vs)"

text \<open>
  A pass of \<^verbatim>\<open>processVideoMetadata\<close> while it runs: the closure of the render that
  created the callback, the eligible videos it computed at its start, the loop index
  \<open>i\<close>, the operations of the group that was started last, each with its video and
  its phase, and whether it has reached its \<^verbatim>\<open>finally\<close>.
\<close>

record running_pass =
  pass_closure :: closure
  pass_videos :: "VideoData list"
  loop_index :: nat
  running :: "(VideoData \<times> phase) list"
  finished :: bool

text \<open>
  The page while passes run: the component state, which all passes share, and the
  passes that have begun, in the order in which they began.
\<close>

record ingestion_state =
  sched :: scheduler_state
  passes :: "running_pass list"

text \<open>
  Starting a group: \<^verbatim>\<open>batch.map\<close> calls every operation of the group in order, and
  each runs up to its first \<^verbatim>\<open>await\<close>.
\<close>

fun start_batch ::
    "string \<Rightarrow> closure \<Rightarrow> VideoData list \<Rightarrow> scheduler_state
     \<Rightarrow> (VideoData \<times> phase) list \<times> scheduler_state" where
  "start_batch adsIndexId cl [] st = ([], st)"
| "start_batch adsIndexId cl (video # batch) st =
     (case single_start adsIndexId cl video st of
        (ph, st1) \<Rightarrow>
          (case start_batch adsIndexId cl batch st1 of
             (ops, st2) \<Rightarrow> ((video, ph) # ops, st2)))"

definition settled :: "phase \<Rightarrow> bool" where
  "settled ph = (case ph of Settled b \<Rightarrow> True | _ \<Rightarrow> False)"

definition all_settled :: "(VideoData \<times> phase) list \<Rightarrow> bool" where
  "all_settled ops = list_all (\<lambda>p. settled (snd p)) ops"

text \<open>The operations that are in flight: started and not settled.\<close>

definition in_flight :: "(VideoData \<times> phase) list \<Rightarrow> (VideoData \<times> phase) list" where
  "in_flight ops = filter (\<lambda>p. \<not> settled (snd p)) ops"

text \<open>
  What can happen. The delayed call that the effect on the video data has set up fires:
  its callback holds all the videos of the pages, the value of
  \<^verbatim>\<open>skipMetadataProcessing\<close> and the closure of the render that created it. The loop
  of the pass number \<open>p\<close> starts its next group. The call of
  \<^verbatim>\<open>generateMetadata\<close> or of \<^verbatim>\<open>updateVideoMetadata\<close> that the operation number
  \<open>k\<close> of the current group of pass \<open>p\<close> is waiting for settles. The pass number \<open>p\<close>
  leaves its loop and runs its \<^verbatim>\<open>finally\<close>.
\<close>

datatype ingestion_event =
    DelayedCall bool closure "VideoData list"
  | NextGroup nat
  | GenerateSettles nat nat
  | PersistSettles nat nat
  | PassFinishes nat

text \<open>
  The start of \<^verbatim>\<open>processVideoMetadata\<close>: the three early returns, the filter, and the
  return when no video is eligible.
\<close>

definition begin_pass ::
    "string \<Rightarrow> upload list \<Rightarrow> bool \<Rightarrow> closure \<Rightarrow> VideoData list \<Rightarrow> ingestion_state \<Rightarrow> ingestion_state" where
  "begin_pass adsIndexId recentUploads seen_skip cl videos s =
     (if adsIndexId = [] \<or> length videos = 0 \<or> seen_skip then s
      else if length (videosNeedingMetadata cl recentUploads videos) = 0 then s
      else s\<lparr>passes := passes s @
                [\<lparr>pass_closure = cl, pass_videos = videosNeedingMetadata cl recentUploads videos,
                  loop_index = 0, running = [], finished = False\<rparr>]\<rparr>)"

text \<open>
  The callback of the delayed call (lines 512 to 519): it keeps the videos that need
  metadata and, when there are some, calls \<^verbatim>\<open>processVideoMetadata\<close> with them.
\<close>

definition delayed_call ::
    "string \<Rightarrow> upload list \<Rightarrow> bool \<Rightarrow> closure \<Rightarrow> VideoData list \<Rightarrow> ingestion_state \<Rightarrow> ingestion_state" where
  "delayed_call adsIndexId recentUploads seen_skip cl allVideos s =
     (let newlyLoadedVideos =
            filterVideosNeedingMetadata allVideos (seen_processedVideoIds cl)
              (seen_videosInProcessing cl)
      in if length newlyLoadedVideos > 0
         then begin_pass adsIndexId recentUploads seen_skip cl newlyLoadedVideos s
         else s)"

text \<open>
  The loop starts the next group only when \<^verbatim>\<open>Promise.all\<close> of the previous one has
  resolved, that is when every operation of it has settled; the group is
  \<^verbatim>\<open>slice(i, i + limit)\<close>, and the index then advances by the limit.
\<close>

definition next_group :: "string \<Rightarrow> nat \<Rightarrow> nat \<Rightarrow> ingestion_state \<Rightarrow> ingestion_state" where
  "next_group adsIndexId limit p s =
     (if p < length (passes s) \<and> \<not> finished (passes s ! p) \<and> all_settled (running (passes s ! p))
         \<and> loop_index (passes s ! p) < length (pass_videos (passes s ! p))
      then (case start_batch adsIndexId (pass_closure (passes s ! p))
                   (batch_at limit (loop_index (passes s ! p)) (pass_videos (passes s ! p)))
                   (sched s) of
              (ops, st') \<Rightarrow>
                s\<lparr>sched := st',
                  passes := (passes s)
                    [p := (passes s ! p)\<lparr>loop_index := loop_index (passes s ! p) + limit,
                                        running := ops\<rparr>]\<rparr>)
      else s)"

text \<open>An operation that is waiting receives the outcome of its call.\<close>

definition settle_operation ::
    "collaborators \<Rightarrow> string \<Rightarrow> VideoData \<Rightarrow> phase \<Rightarrow> scheduler_state \<Rightarrow> phase \<times> scheduler_state" where
  "settle_operation co adsIndexId video ph st =
     (case ph of
        AwaitGenerate \<Rightarrow>
          single_generated adsIndexId video (generateMetadata co (video_id video)) st
      | AwaitPersist md \<Rightarrow>
          single_persisted video md (updateVideoMetadata co (video_id video) adsIndexId md) st
      | Settled b \<Rightarrow> (Settled b, st))"

definition waits_for_generate :: "phase \<Rightarrow> bool" where
  "waits_for_generate ph = (case ph of AwaitGenerate \<Rightarrow> True | _ \<Rightarrow> False)"

definition waits_for_persist :: "phase \<Rightarrow> bool" where
  "waits_for_persist ph = (case ph of AwaitPersist md \<Rightarrow> True | _ \<Rightarrow> False)"

definition operation_settles ::
    "collaborators \<Rightarrow> string \<Rightarrow> (phase \<Rightarrow> bool) \<Rightarrow> nat \<Rightarrow> nat \<Rightarrow> ingestion_state \<Rightarrow> ingestion_state" where
  "operation_settles co adsIndexId waiting p k s =
     (if p < length (passes s) \<and> k < length (running (passes s ! p))
         \<and> waiting (snd (running (passes s ! p) ! k))
      then (case settle_operation co adsIndexId (fst (running (passes s ! p) ! k))
                   (snd (running (passes s ! p) ! k)) (sched s) of
              (ph, st') \<Rightarrow>
                s\<lparr>sched := st',
                  passes := (passes s)
                    [p := (passes s ! p)
                       \<lparr>running := (running (passes s ! p))
                           [k := (fst (running (passes s ! p) ! k), ph)]\<rparr>]\<rparr>)
      else s)"

text \<open>
  The \<^verbatim>\<open>finally\<close> of a pass, once its loop is over: it empties
  \<^verbatim>\<open>videosInProcessing\<close>. (The flags it sets are those of the page state of the next
  section.)
\<close>

definition finish_pass :: "nat \<Rightarrow> ingestion_state \<Rightarrow> ingestion_state" where
  "finish_pass p s =
     (if p < length (passes s) \<and> \<not> finished (passes s ! p) \<and> all_settled (running (passes s ! p))
         \<and> \<not> loop_index (passes s ! p) < length (pass_videos (passes s ! p))
      then s\<lparr>sched := (sched s)\<lparr>videosInProcessing := []\<rparr>,
             passes := (passes s)[p := (passes s ! p)\<lparr>finished := True\<rparr>]\<rparr>
      else s)"

definition ingestion_step ::
    "collaborators \<Rightarrow> string \<Rightarrow> upload list \<Rightarrow> nat \<Rightarrow> ingestion_state \<Rightarrow> ingestion_event
     \<Rightarrow> ingestion_state" where
  "ingestion_step co adsIndexId recentUploads limit s e =
     (case e of
        DelayedCall seen_skip cl allVideos \<Rightarrow>
          delayed_call adsIndexId recentUploads seen_skip cl allVideos s
      | NextGroup p \<Rightarrow> next_group adsIndexId limit p s
      | GenerateSettles p k \<Rightarrow> operation_settles co adsIndexId waits_for_generate p k s
      | PersistSettles p k \<Rightarrow> operation_settles co adsIndexId waits_for_persist p k s
      | PassFinishes p \<Rightarrow> finish_pass p s)"

definition run_ingestion ::
    "collaborators \<Rightarrow> string \<Rightarrow> upload list \<Rightarrow> nat \<Rightarrow> ingestion_state \<Rightarrow> ingestion_event list
     \<Rightarrow> ingestion_state" where
  "run_ingestion co adsIndexId recentUploads limit s es =
     foldl (ingestion_step co adsIndexId recentUploads limit) s es"

definition is_DelayedCall :: "ingestion_event \<Rightarrow> bool" where
  "is_DelayedCall e = (case e of DelayedCall seen_skip cl allVideos \<Rightarrow> True | _ \<Rightarrow> False)"

text \<open>The ids of the operations in flight.\<close>

definition ids_in_flight :: "(VideoData \<times> phase) list \<Rightarrow> string list" where
  "ids_in_flight ops = map (\<lambda>p. video_id (fst p)) (in_flight ops)"

subsection \<open>Examples\<close>

definition empty_state :: scheduler_state where
  "empty_state = \<lparr>processedVideoIds = {}, videosInProcessing = [], calls = []\<rparr>"

definition empty_closure :: closure where
  "empty_closure = \<lparr>seen_processedVideoIds = {}, seen_videosInProcessing = []\<rparr>"

text \<open>A video whose stored metadata has only the sector.\<close>

definition sector_only_video :: VideoData where
  "sector_only_video = \<lparr>video_id = ''v1'', user_metadata = Some [(''sector'', ''tech'')]\<rparr>"

text \<open>
  The object that \<^verbatim>\<open>updateVideoMetadata\<close> sends as the metadata of a video: the six
  keys of the record. The second example is a video that comes back with the metadata
  stored for the hashtags \<^verbatim>\<open>#male #tech\<close>.
\<close>

definition stored_entries :: "ClassifiedMetadata \<Rightarrow> (string \<times> string) list" where
  "stored_entries md =
     [(''source'', source md), (''sector'', sector md), (''emotions'', emotions md),
      (''brands'', brands md), (''locations'', locations md), (''demographics'', demographics md)]"

definition classified_video :: VideoData where
  "classified_video =
     \<lparr>video_id = ''v2'', user_metadata = Some (stored_entries (parseHashtags ''#male #tech''))\<rparr>"

definition new_video :: "string \<Rightarrow> VideoData" where
  "new_video i = \<lparr>video_id = i, user_metadata = None\<rparr>"

text \<open>Collaborators that generate \<^verbatim>\<open>#tech\<close>; the update answers \<^verbatim>\<open>success: false\<close>.\<close>

definition persist_refused :: collaborators where
  "persist_refused =
     \<lparr>generateMetadata = (\<lambda>videoId. Returns ''#tech''),
      updateVideoMetadata = (\<lambda>videoId indexId md. Returns False)\<rparr>"

text \<open>Collaborators whose generation request fails at once.\<close>

definition generation_fails :: collaborators where
  "generation_fails =
     \<lparr>generateMetadata = (\<lambda>videoId. Throws ''Failed to generate metadata''),
      updateVideoMetadata = (\<lambda>videoId indexId md. Returns True)\<rparr>"

text \<open>Twenty videos without metadata.\<close>

definition twenty_videos :: "VideoData list" where
  "twenty_videos =
     map new_video
       [''a'', ''b'', ''c'', ''d'', ''e'', ''f'', ''g'', ''h'', ''i'', ''j'',
        ''k'', ''l'', ''m'', ''n'', ''o'', ''p'', ''q'', ''r'', ''s'', ''t'']"

definition idle_page :: ingestion_state where
  "idle_page = \<lparr>sched = empty_state, passes = []\<rparr>"

text \<open>
  Two delayed calls whose callbacks were both created before any pass began (two runs
  of the effect on the video data). The first call fires, its pass starts its first
  group, the ten generation requests fail, and the pass starts its second group. Then
  the second call fires: its callback sees no id as processed or in processing, so its
  pass begins and starts its first group.
\<close>

definition two_passes_events :: "ingestion_event list" where
  "two_passes_events =
     [DelayedCall False empty_closure twenty_videos, NextGroup 0]
     @ map (GenerateSettles 0) [0, 1, 2, 3, 4, 5, 6, 7, 8, 9]
     @ [NextGroup 0, DelayedCall False empty_closure twenty_videos, NextGroup 1]"

text \<open>A pass over three videos with limit 2: the first group starts.\<close>

definition three_videos :: "VideoData list" where
  "three_videos = [new_video ''a'', new_video ''b'', new_video ''c'']"

definition one_pass_events :: "ingestion_event list" where
  "one_pass_events = [DelayedCall False empty_closure three_videos, NextGroup 0]"

text \<open>
  The invariant of a page on which at most one pass has begun: the operations of its
  current group are at most \<open>limit\<close>, and the ids in \<^verbatim>\<open>videosInProcessing\<close> are ids
  of operations in flight, counted with multiplicity.
\<close>

definition one_pass_inv :: "nat \<Rightarrow> ingestion_state \<Rightarrow> bool" where
  "one_pass_inv limit s =
     (length (passes s) \<le> 1
      \<and> (passes s = [] \<longrightarrow> videosInProcessing (sched s) = [])
      \<and> (\<forall>P\<in>set (passes s). length (running P) \<le> limit
            \<and> mset (videosInProcessing (sched s)) \<subseteq># mset (ids_in_flight (running P))))"

section \<open>MetadataIngestionScheduler: when a pass may start\<close>

text \<open>
  The flags of the page that decide whether a pass starts, the clock in milliseconds, and
  the pending timers with the time from which each may fire. The lists of start and end
  times record when a pass set its flags and when it reached its \<^verbatim>\<open>finally\<close>.
\<close>

text \<open>
  A timer of the page is either the delayed call of \<^verbatim>\<open>processVideoMetadata\<close> that the
  effect on the video data sets up, or the call that clears
  \<^verbatim>\<open>skipMetadataProcessing\<close> two seconds after a pass. The delayed call carries what
  its callback sees: the value of \<^verbatim>\<open>skipMetadataProcessing\<close> in the render that set
  it up, and whether it will find a video that needs metadata.
\<close>

datatype timer = RunPass bool bool | ReenableProcessing

record page_state =
  processingMetadata :: bool
  skipMetadataProcessing :: bool
  clock :: nat
  timers :: "(nat \<times> timer) list"
  passes_running :: nat
  pass_starts :: "nat list"
  pass_ends :: "nat list"

text \<open>
  What can happen to the page: time passes; the effect on the video data runs (after a
  refresh or any other change of what it depends on), with pages present or not and
  with or without a video that needs metadata; a pending timer fires; a running pass
  reaches its \<^verbatim>\<open>finally\<close>; the infinite scroll loads the next page.
\<close>

datatype event =
    Tick nat
  | EffectRun bool bool
  | TimerFires nat
  | PassEnds
  | InfiniteScroll

text \<open>
  The start of \<^verbatim>\<open>processVideoMetadata\<close>: it returns at once when the flag it sees is
  set or when no video needs metadata; otherwise it sets both flags and runs.
\<close>

definition start_pass :: "bool \<Rightarrow> bool \<Rightarrow> page_state \<Rightarrow> page_state" where
  "start_pass seen_skip needy s =
     (if seen_skip \<or> \<not> needy then s
      else s\<lparr>processingMetadata := True, skipMetadataProcessing := True,
             passes_running := passes_running s + 1,
             pass_starts := pass_starts s @ [clock s]\<rparr>)"

definition fire :: "timer \<Rightarrow> page_state \<Rightarrow> page_state" where
  "fire t s =
     (case t of
        RunPass seen_skip needy \<Rightarrow> start_pass seen_skip needy s
      | ReenableProcessing \<Rightarrow> s\<lparr>skipMetadataProcessing := False\<rparr>)"

fun page_step :: "page_state \<Rightarrow> event \<Rightarrow> page_state" where
  "page_step s (Tick d) = s\<lparr>clock := clock s + d\<rparr>"
| "page_step s (EffectRun pages needy) =
     (if pages \<and> \<not> processingMetadata s \<and> \<not> skipMetadataProcessing s
      then s\<lparr>timers := timers s @ [(clock s + 100, RunPass (skipMetadataProcessing s) needy)]\<rparr>
      else s)"
| "page_step s (TimerFires k) =
     (if k < length (timers s) \<and> fst (timers s ! k) \<le> clock s
      then fire (snd (timers s ! k)) (s\<lparr>timers := take k (timers s) @ drop (Suc k) (timers s)\<rparr>)
      else s)"
| "page_step s PassEnds =
     (if 0 < passes_running s
      then s\<lparr>processingMetadata := False,
             passes_running := passes_running s - 1,
             timers := timers s @ [(clock s + 2000, ReenableProcessing)],
             pass_ends := pass_ends s @ [clock s]\<rparr>
      else s)"
| "page_step s InfiniteScroll = s\<lparr>skipMetadataProcessing := False\<rparr>"

definition run_events :: "page_state \<Rightarrow> event list \<Rightarrow> page_state" where
  "run_events s es = foldl page_step s es"

definition initial_page :: page_state where
  "initial_page =
     \<lparr>processingMetadata = False, skipMetadataProcessing = False, clock = 0, timers = [],
      passes_running = 0, pass_starts = [], pass_ends = []\<rparr>"

text \<open>A pass has just started, it is the only one, and no timer is pending.\<close>

definition pass_alone :: "page_state \<Rightarrow> bool" where
  "pass_alone s =
     (processingMetadata s \<and> skipMetadataProcessing s \<and> passes_running s = 1 \<and> timers s = [])"

text \<open>
  The three stages after such a start at \<open>s0\<close>: the pass runs; it has ended at \<open>tc\<close> and
  the flag is still set; the two seconds are over.
\<close>

definition stage_running :: "page_state \<Rightarrow> page_state \<Rightarrow> bool" where
  "stage_running s0 s =
     (processingMetadata s \<and> skipMetadataProcessing s \<and> passes_running s = 1 \<and> timers s = []
      \<and> pass_starts s = pass_starts s0 \<and> pass_ends s = pass_ends s0)"

definition stage_cooldown :: "page_state \<Rightarrow> page_state \<Rightarrow> bool" where
  "stage_cooldown s0 s =
     (\<exists>tc. \<not> processingMetadata s \<and> skipMetadataProcessing s \<and> passes_running s = 0
        \<and> timers s = [(tc + 2000, ReenableProcessing)]
        \<and> pass_starts s = pass_starts s0 \<and> pass_ends s = pass_ends s0 @ [tc])"

definition stage_after :: "page_state \<Rightarrow> page_state \<Rightarrow> bool" where
  "stage_after s0 s =
     (\<exists>tc more new. pass_ends s = pass_ends s0 @ tc # more
        \<and> pass_starts s = pass_starts s0 @ new
        \<and> (\<forall>t\<in>set new. tc + 2000 \<le> t) \<and> tc + 2000 \<le> clock s)"

text \<open>The events of the examples.\<close>

definition first_pass_events :: "event list" where
  "first_pass_events = [EffectRun True True, Tick 100, TimerFires 0]"

definition scroll_after_pass_events :: "event list" where
  "scroll_after_pass_events =
     [EffectRun True True, Tick 100, TimerFires 0, Tick 50, PassEnds, Tick 10, InfiniteScroll]"

definition scroll_in_cooldown_events :: "event list" where
  "scroll_in_cooldown_events =
     scroll_after_pass_events @ [EffectRun True True, Tick 100, TimerFires 1]"

definition quiet_cooldown_events :: "event list" where
  "quiet_cooldown_events = [Tick 50, PassEnds, Tick 10, EffectRun True True]"

text \<open>
  Two runs of the effect 20 ms apart, before any pass has started: each sets up its own
  delayed call, and nothing cancels the first. In the first list the pass of the
  first call has ended before the second call fires; in the second list it is still
  running.
\<close>

definition stale_call_events :: "event list" where
  "stale_call_events =
     [EffectRun True True, Tick 20, EffectRun True True, Tick 80, TimerFires 0,
      Tick 10, PassEnds, Tick 10, TimerFires 0]"

definition racing_calls_events :: "event list" where
  "racing_calls_events =
     [EffectRun True True, Tick 20, EffectRun True True, Tick 80, TimerFires 0,
      Tick 20, TimerFires 0]"

text \<open>
  After the pass that started at 260 ms while the timer of the first pass was pending:
  it ends at 300 ms, the timer of the first pass clears the flag at 2150 ms, and a run
  of the effect then schedules a pass.
\<close>

definition stale_reenable_events :: "event list" where
  "stale_reenable_events =
     scroll_in_cooldown_events
       @ [Tick 40, PassEnds, Tick 1850, TimerFires 0, EffectRun True True, Tick 100, TimerFires 1]"

text \<open>
  Two runs of the effect on the video data, at 0 ms and at 90 ms, before any pass has
  started: each sets up a delayed call, both calls fire, at 100 ms and at 190 ms.
\<close>

definition two_calls_events :: "event list" where
  "two_calls_events =
     [EffectRun True True, Tick 90, EffectRun True True, Tick 10, TimerFires 0,
      Tick 90, TimerFires 0]"

section \<open>Verified properties\<close>

subsection \<open>SimilarityMatcher: deduplication and ranking\<close>

lemma is_first_max_single: "is_first_max x [x]"
  unfolding is_first_max_def by (rule exI[of _ "[]"], rule exI[of _ "[]"]) simp

lemma is_first_max_keep:
  assumes "is_first_max m g" "\<not> score_or_0 m < score_or_0 x"
  shows "is_first_max m (g @ [x])"
proof -
  from assms(1) obtain pre post where g: "g = pre @ m # post"
    and a: "\<forall>x\<in>set pre. score_or_0 x < score_or_0 m"
    and b: "\<forall>x\<in>set post. score_or_0 x \<le> score_or_0 m"
    unfolding is_first_max_def by blast
  have "g @ [x] = pre @ m # (post @ [x])" using g by simp
  moreover have "\<forall>y\<in>set (post @ [x]). score_or_0 y \<le> score_or_0 m"
    using b assms(2) by auto
  ultimately show ?thesis unfolding is_first_max_def using a by blast
qed

lemma is_first_max_replace:
  assumes "is_first_max m g" "score_or_0 m < score_or_0 x"
  shows "is_first_max x (g @ [x])"
proof -
  from assms(1) obtain pre post where g: "g = pre @ m # post"
    and a: "\<forall>x\<in>set pre. score_or_0 x < score_or_0 m"
    and b: "\<forall>x\<in>set post. score_or_0 x \<le> score_or_0 m"
    unfolding is_first_max_def by blast
  have "\<forall>y\<in>set g. score_or_0 y < score_or_0 x"
    using g a b assms(2) by fastforce
  moreover have "g @ [x] = g @ x # []" by simp
  ultimately show ?thesis unfolding is_first_max_def
    by (intro exI[of _ g] exI[of _ "[]"]) simp
qed

lemma group_of_snoc:
  "group_of k (xs @ [x]) = (if tlVideoId x = Some k then group_of k xs @ [x] else group_of k xs)"
  by (simp add: group_of_def)

lemma in_set_updateD:
  "p \<in> set (AList.update k v al) \<Longrightarrow> p = (k, v) \<or> p \<in> set al"
  by (induction al) (auto split: if_splits)

lemma acc_inv_same_groups:
  assumes "acc_inv xs A" "\<And>k. k \<noteq> [] \<Longrightarrow> group_of k ys = group_of k xs"
  shows "acc_inv ys A"
  using assms unfolding acc_inv_def by presburger

text \<open>On an ordinary id the step reads and writes own properties only.\<close>

lemma reduce_step_ordinary:
  assumes "acc_prototype A = None" "tlVideoId x = Some k" "k \<noteq> []" "\<not> names_prototype_member k"
  shows "reduce_step A x =
     (case map_of (acc_own A) k of
        None \<Rightarrow> A\<lparr>acc_own := AList.update k x (acc_own A)\<rparr>
      | Some prev \<Rightarrow> if score_or_0 prev < score_or_0 x
                     then A\<lparr>acc_own := AList.update k x (acc_own A)\<rparr> else A)"
  using assms
  by (simp add: reduce_step_def acc_get_def acc_set_def inherited_value_def
      names_prototype_member_def split: option.splits)

lemma acc_inv_step:
  assumes "acc_inv xs A"
    and ord: "\<And>k. tlVideoId x = Some k \<Longrightarrow> \<not> names_prototype_member k"
  shows "acc_inv (xs @ [x]) (reduce_step A x)"
proof (cases "tlVideoId x")
  case None
  then have "acc_inv (xs @ [x]) A"
    using assms by (intro acc_inv_same_groups[OF assms(1)]) (simp add: group_of_snoc)
  then show ?thesis using None by (simp add: reduce_step_def)
next
  case (Some k0)
  show ?thesis
  proof (cases "k0 = []")
    case True
    then have "acc_inv (xs @ [x]) A"
      using Some by (intro acc_inv_same_groups[OF assms(1)]) (auto simp add: group_of_snoc)
    then show ?thesis using True Some by (simp add: reduce_step_def)
  next
    case False
    from assms(1) have p: "acc_prototype A = None" and d: "distinct (map fst (acc_own A))"
      and v: "\<forall>p\<in>set (acc_own A). fst p \<noteq> [] \<and> tlVideoId (snd p) = Some (fst p)"
      and g: "\<And>k. k \<noteq> [] \<Longrightarrow> (if group_of k xs = [] then map_of (acc_own A) k = None
            else \<exists>m. map_of (acc_own A) k = Some m \<and> is_first_max m (group_of k xs))"
      unfolding acc_inv_def by blast+
    note step = reduce_step_ordinary[OF p Some False ord[OF Some]]
    let ?U = "A\<lparr>acc_own := AList.update k0 x (acc_own A)\<rparr>"
    have upd_inv: "acc_inv (xs @ [x]) ?U"
      if "group_of k0 xs = [] \<or> (\<exists>m. map_of (acc_own A) k0 = Some m \<and> is_first_max m (group_of k0 xs) \<and> score_or_0 m < score_or_0 x)"
    proof -
      have 0: "acc_prototype ?U = None" using p by simp
      have 1: "distinct (map fst (acc_own ?U))" using d by (simp add: distinct_update)
      have 2: "\<forall>p\<in>set (acc_own ?U). fst p \<noteq> [] \<and> tlVideoId (snd p) = Some (fst p)"
        using v False Some by (auto dest!: in_set_updateD)
      have 3: "(if group_of k (xs @ [x]) = [] then map_of (acc_own ?U) k = None
            else \<exists>m. map_of (acc_own ?U) k = Some m \<and> is_first_max m (group_of k (xs @ [x])))"
        if "k \<noteq> []" for k
      proof (cases "k = k0")
        case True
        then show ?thesis using that \<open>group_of k0 xs = [] \<or> _\<close> Some
          by (auto simp: group_of_snoc update_conv' is_first_max_single is_first_max_replace)
      next
        case False
        then show ?thesis using g[OF that] Some
          by (simp add: group_of_snoc update_conv')
      qed
      show ?thesis unfolding acc_inv_def using 0 1 2 3 by blast
    qed
    show ?thesis
    proof (cases "map_of (acc_own A) k0")
      case None
      then have "group_of k0 xs = []" using g[OF False] by (auto split: if_splits)
      then show ?thesis using upd_inv None step by simp
    next
      case (Some prev)
      then have ne: "group_of k0 xs \<noteq> []" and fm: "is_first_max prev (group_of k0 xs)"
        using g[OF False] by (auto split: if_splits)
      show ?thesis
      proof (cases "score_or_0 prev < score_or_0 x")
        case True
        then show ?thesis using upd_inv Some fm step by simp
      next
        case nlt: False
        have 3: "(if group_of k (xs @ [x]) = [] then map_of (acc_own A) k = None
              else \<exists>m. map_of (acc_own A) k = Some m \<and> is_first_max m (group_of k (xs @ [x])))"
          if "k \<noteq> []" for k
        proof (cases "k = k0")
          case True
          then show ?thesis using Some fm nlt \<open>tlVideoId x = Some k0\<close>
            by (simp add: group_of_snoc is_first_max_keep)
        next
          case False
          then show ?thesis using g[OF that] \<open>tlVideoId x = Some k0\<close>
            by (simp add: group_of_snoc)
        qed
        have "acc_inv (xs @ [x]) A" unfolding acc_inv_def using p d v 3 by blast
        then show ?thesis using Some nlt step by simp
      qed
    qed
  qed
qed

lemma ordinary_ids_snoc:
  "ordinary_ids (xs @ [x]) =
     (ordinary_ids xs \<and> (\<forall>k. tlVideoId x = Some k \<longrightarrow> \<not> names_prototype_member k))"
  by (auto simp add: ordinary_ids_def split: option.splits)

lemma acc_inv_reduce_all: "ordinary_ids xs \<Longrightarrow> acc_inv xs (reduce_all xs)"
proof (induction xs rule: rev_induct)
  case Nil
  show ?case by (simp add: reduce_all_def acc_inv_def group_of_def empty_object_def)
next
  case (snoc x xs)
  then have o: "ordinary_ids xs" and ox: "\<And>k. tlVideoId x = Some k \<Longrightarrow> \<not> names_prototype_member k"
    by (simp_all add: ordinary_ids_snoc)
  from snoc.IH[OF o] have "acc_inv (xs @ [x]) (reduce_step (reduce_all xs) x)"
    by (rule acc_inv_step) (rule ox)
  then show ?case by (simp add: reduce_all_def)
qed

lemma score_of_inherited_value:
  "k \<noteq> ''__proto__'' \<Longrightarrow> score_of_value (inherited_value p k) = 0"
  by (cases p) (simp_all add: inherited_value_def own_property_of_match_def split: option.splits)

lemma kept_inv_same_own:
  assumes "kept_inv xs A" "acc_own B = acc_own A"
    "\<And>k. k \<noteq> [] \<Longrightarrow> k \<noteq> ''__proto__'' \<Longrightarrow> group_of k ys = group_of k xs"
    "\<And>k. map_of (acc_own A) k \<noteq> None \<Longrightarrow> group_of k ys = group_of k xs"
  shows "kept_inv ys B"
proof -
  from assms(1) have d: "distinct (map fst (acc_own A))"
    and v: "\<forall>p\<in>set (acc_own A). fst p \<noteq> [] \<and> tlVideoId (snd p) = Some (fst p)"
    and g: "\<And>k m x. map_of (acc_own A) k = Some m \<Longrightarrow> x \<in> set (group_of k xs)
              \<Longrightarrow> 0 < score_or_0 x \<Longrightarrow> score_or_0 x \<le> score_or_0 m"
    and n: "\<And>k x. k \<noteq> [] \<Longrightarrow> k \<noteq> ''__proto__'' \<Longrightarrow> map_of (acc_own A) k = None
              \<Longrightarrow> x \<in> set (group_of k xs) \<Longrightarrow> \<not> 0 < score_or_0 x"
    unfolding kept_inv_def by blast+
  have g': "score_or_0 x \<le> score_or_0 m"
    if "map_of (acc_own B) k = Some m" "x \<in> set (group_of k ys)" "0 < score_or_0 x" for k m x
  proof -
    have "map_of (acc_own A) k = Some m" using that(1) assms(2) by simp
    moreover from this have "group_of k ys = group_of k xs" using assms(4)[of k] by simp
    ultimately show ?thesis using g[of k m x] that by simp
  qed
  have n': "\<not> 0 < score_or_0 x"
    if "k \<noteq> []" "k \<noteq> ''__proto__''" "map_of (acc_own B) k = None" "x \<in> set (group_of k ys)" for k x
    using n[of k x] that assms(2) assms(3)[of k] by simp
  show ?thesis unfolding kept_inv_def using d v g' n' assms(2) by auto
qed

text \<open>
  The step keeps \<open>kept_inv\<close> on every match. Writing the own property of the id of \<open>x\<close>
  keeps it when no earlier match of positive score in the group scores more than \<open>x\<close>
  (\<open>upd_inv\<close>); leaving the own properties as they are keeps it when the group is that
  of \<^verbatim>\<open>__proto__\<close> or \<open>x\<close> is no improvement (\<open>same_inv\<close>).
\<close>

lemma kept_inv_step:
  assumes "kept_inv xs A"
  shows "kept_inv (xs @ [x]) (reduce_step A x)"
proof (cases "tlVideoId x")
  case None
  then have "kept_inv (xs @ [x]) A"
    by (intro kept_inv_same_own[OF assms]) (simp_all add: group_of_snoc)
  then show ?thesis using None by (simp add: reduce_step_def)
next
  case (Some k0)
  from assms have d: "distinct (map fst (acc_own A))"
    and v: "\<forall>p\<in>set (acc_own A). fst p \<noteq> [] \<and> tlVideoId (snd p) = Some (fst p)"
    and g: "\<And>k m y. map_of (acc_own A) k = Some m \<Longrightarrow> y \<in> set (group_of k xs)
              \<Longrightarrow> 0 < score_or_0 y \<Longrightarrow> score_or_0 y \<le> score_or_0 m"
    and n: "\<And>k y. k \<noteq> [] \<Longrightarrow> k \<noteq> ''__proto__'' \<Longrightarrow> map_of (acc_own A) k = None
              \<Longrightarrow> y \<in> set (group_of k xs) \<Longrightarrow> \<not> 0 < score_or_0 y"
    unfolding kept_inv_def by blast+
  have own_key: "k \<noteq> []" if "map_of (acc_own A) k \<noteq> None" for k
  proof -
    from that obtain m where "map_of (acc_own A) k = Some m" by auto
    then have "(k, m) \<in> set (acc_own A)" by (rule map_of_SomeD)
    then show ?thesis using v by auto
  qed
  show ?thesis
  proof (cases "k0 = []")
    case True
    have "kept_inv (xs @ [x]) A"
    proof (rule kept_inv_same_own[OF assms])
      show "acc_own A = acc_own A" by simp
      show "group_of k (xs @ [x]) = group_of k xs" if "k \<noteq> []" for k
        using that Some True by (simp add: group_of_snoc)
      show "group_of k (xs @ [x]) = group_of k xs" if "map_of (acc_own A) k \<noteq> None" for k
        using own_key[OF that] Some True by (simp add: group_of_snoc)
    qed
    then show ?thesis using True Some by (simp add: reduce_step_def)
  next
    case False
    let ?U = "A\<lparr>acc_own := AList.update k0 x (acc_own A)\<rparr>"
    have upd_inv: "kept_inv (xs @ [x]) ?U"
      if le: "\<And>y. y \<in> set (group_of k0 xs) \<Longrightarrow> 0 < score_or_0 y \<Longrightarrow> score_or_0 y \<le> score_or_0 x"
    proof -
      have 1: "distinct (map fst (acc_own ?U))" using d by (simp add: distinct_update)
      have 2: "\<forall>p\<in>set (acc_own ?U). fst p \<noteq> [] \<and> tlVideoId (snd p) = Some (fst p)"
        using v False Some by (auto dest!: in_set_updateD)
      have 3: "score_or_0 y \<le> score_or_0 m"
        if "map_of (acc_own ?U) k = Some m" "y \<in> set (group_of k (xs @ [x]))" "0 < score_or_0 y"
        for k m y
      proof (cases "k = k0")
        case True
        then have "m = x" using that(1) by (simp add: update_conv')
        moreover have "y = x \<or> y \<in> set (group_of k0 xs)"
          using that(2) True by (auto simp add: group_of_snoc split: if_splits)
        ultimately show ?thesis using le[of y] that(3) by auto
      next
        case False
        then have "map_of (acc_own A) k = Some m" using that(1) by (simp add: update_conv')
        moreover have "y \<in> set (group_of k xs)"
          using that(2) False Some by (simp add: group_of_snoc)
        ultimately show ?thesis using g that(3) by blast
      qed
      have 4: "\<not> 0 < score_or_0 y"
        if "k \<noteq> []" "k \<noteq> ''__proto__''" "map_of (acc_own ?U) k = None"
           "y \<in> set (group_of k (xs @ [x]))" for k y
      proof -
        have ne: "k \<noteq> k0" using that(3) by (auto simp add: update_conv')
        then have "map_of (acc_own A) k = None" using that(3) by (simp add: update_conv')
        moreover have "y \<in> set (group_of k xs)"
          using that(4) ne Some by (simp add: group_of_snoc)
        ultimately show ?thesis using n that(1,2) by blast
      qed
      show ?thesis unfolding kept_inv_def using 1 2 3 4 by blast
    qed
    have same_inv: "kept_inv (xs @ [x]) B"
      if own: "acc_own B = acc_own A"
        and kept: "\<And>m. map_of (acc_own A) k0 = Some m \<Longrightarrow> \<not> score_or_0 m < score_or_0 x"
        and none: "map_of (acc_own A) k0 = None \<Longrightarrow> k0 = ''__proto__'' \<or> \<not> 0 < score_or_0 x"
      for B
    proof -
      have 3: "score_or_0 y \<le> score_or_0 m"
        if "map_of (acc_own B) k = Some m" "y \<in> set (group_of k (xs @ [x]))" "0 < score_or_0 y"
        for k m y
      proof -
        have mk: "map_of (acc_own A) k = Some m" using that(1) own by simp
        have "y = x \<and> k = k0 \<or> y \<in> set (group_of k xs)"
          using that(2) Some by (auto simp add: group_of_snoc split: if_splits)
        then show ?thesis
        proof
          assume "y = x \<and> k = k0"
          then show ?thesis using kept[of m] mk by auto
        next
          assume "y \<in> set (group_of k xs)"
          then show ?thesis using g mk that(3) by blast
        qed
      qed
      have 4: "\<not> 0 < score_or_0 y"
        if "k \<noteq> []" "k \<noteq> ''__proto__''" "map_of (acc_own B) k = None"
           "y \<in> set (group_of k (xs @ [x]))" for k y
      proof -
        have mk: "map_of (acc_own A) k = None" using that(3) own by simp
        have "y = x \<and> k = k0 \<or> y \<in> set (group_of k xs)"
          using that(4) Some by (auto simp add: group_of_snoc split: if_splits)
        then show ?thesis
        proof
          assume "y = x \<and> k = k0"
          then show ?thesis using none mk that(2) by auto
        next
          assume "y \<in> set (group_of k xs)"
          then show ?thesis using n mk that(1,2) by blast
        qed
      qed
      show ?thesis unfolding kept_inv_def using d v 3 4 own by auto
    qed
    show ?thesis
    proof (cases "map_of (acc_own A) k0")
      case (Some prev)
      have step: "reduce_step A x = (if score_or_0 prev < score_or_0 x then ?U else A)"
        using Some \<open>tlVideoId x = Some k0\<close> False
        by (simp add: reduce_step_def acc_get_def acc_set_def)
      show ?thesis
      proof (cases "score_or_0 prev < score_or_0 x")
        case True
        have "kept_inv (xs @ [x]) ?U"
        proof (rule upd_inv)
          fix y assume "y \<in> set (group_of k0 xs)" "0 < score_or_0 y"
          then have "score_or_0 y \<le> score_or_0 prev" using g Some by blast
          then show "score_or_0 y \<le> score_or_0 x" using True by simp
        qed
        then show ?thesis using step True by simp
      next
        case nlt: False
        have "kept_inv (xs @ [x]) A"
          by (rule same_inv) (use Some nlt in simp_all)
        then show ?thesis using step nlt by simp
      qed
    next
      case None
      show ?thesis
      proof (cases "k0 = ''__proto__''")
        case True
        have "acc_own (reduce_step A x) = acc_own A"
          using None True \<open>tlVideoId x = Some k0\<close>
          by (simp add: reduce_step_def acc_set_def)
        then show ?thesis by (rule same_inv) (use None True in simp_all)
      next
        case np: False
        have z: "score_of_value (inherited_value (acc_prototype A) k0) = 0"
          using np by (rule score_of_inherited_value)
        have step: "reduce_step A x =
           (if \<not> truthy_value (inherited_value (acc_prototype A) k0) \<or> 0 < score_or_0 x
            then ?U else A)"
          using None \<open>tlVideoId x = Some k0\<close> False np z
          by (simp add: reduce_step_def acc_get_def acc_set_def)
        show ?thesis
        proof (cases "\<not> truthy_value (inherited_value (acc_prototype A) k0) \<or> 0 < score_or_0 x")
          case True
          have "kept_inv (xs @ [x]) ?U"
          proof (rule upd_inv)
            fix y assume "y \<in> set (group_of k0 xs)" "0 < score_or_0 y"
            then show "score_or_0 y \<le> score_or_0 x" using n[OF False np None] by blast
          qed
          then show ?thesis using step True by simp
        next
          case nst: False
          have "kept_inv (xs @ [x]) A"
            by (rule same_inv) (use None nst in simp_all)
          then show ?thesis using step nst by simp
        qed
      qed
    qed
  qed
qed

lemma kept_inv_reduce_all: "kept_inv xs (reduce_all xs)"
proof (induction xs rule: rev_induct)
  case Nil
  show ?case by (simp add: reduce_all_def kept_inv_def group_of_def empty_object_def)
next
  case (snoc x xs)
  then show ?case using kept_inv_step[of xs "reduce_all xs" x] by (simp add: reduce_all_def)
qed

lemma mset_Object_values: "mset (Object_values A) = image_mset snd (mset (acc_own A))"
proof -
  have "mset (sort_key (\<lambda>p. digits_value (fst p)) (filter (\<lambda>p. is_array_index (fst p)) (acc_own A))
              @ filter (\<lambda>p. \<not> is_array_index (fst p)) (acc_own A)) = mset (acc_own A)"
    by simp
  then show ?thesis unfolding Object_values_def by (metis mset_map)
qed

lemma mset_sortedResults:
  "mset (sortedResults xs) = image_mset snd (mset (acc_own (reduce_all xs)))"
  by (simp add: sortedResults_def uniqueResults_def mset_Object_values)

lemma set_sortedResults: "set (sortedResults xs) = snd ` set (acc_own (reduce_all xs))"
  using mset_sortedResults[of xs] by (metis set_image_mset set_mset_mset)

lemma filter_key_distinct:
  "distinct (map fst A) \<Longrightarrow>
   filter (\<lambda>p. fst p = k) A = (case map_of A k of None \<Rightarrow> [] | Some m \<Rightarrow> [(k, m)])"
proof (induction A)
  case Nil
  show ?case by simp
next
  case (Cons p A)
  show ?case
  proof (cases "fst p = k")
    case True
    then have "k \<notin> fst ` set A" using Cons.prems by auto
    then have "filter (\<lambda>p. fst p = k) A = []" by (auto simp: filter_empty_conv)
    then show ?thesis using True by (cases p) simp
  next
    case False
    then show ?thesis using Cons by (cases p) simp
  qed
qed

lemma group_of_sortedResults:
  "group_of k (sortedResults xs) =
         (case map_of (acc_own (reduce_all xs)) k of None \<Rightarrow> [] | Some m \<Rightarrow> [m])"
proof -
  let ?A = "acc_own (reduce_all xs)"
  have inv: "kept_inv xs (reduce_all xs)" by (rule kept_inv_reduce_all)
  then have d: "distinct (map fst ?A)"
    and v: "\<forall>p\<in>set ?A. tlVideoId (snd p) = Some (fst p)"
    unfolding kept_inv_def by blast+
  have "mset (group_of k (sortedResults xs))
        = filter_mset (\<lambda>m. tlVideoId m = Some k) (image_mset snd (mset ?A))"
    by (simp add: group_of_def mset_sortedResults)
  also have "\<dots> = image_mset snd (filter_mset (\<lambda>p. tlVideoId (snd p) = Some k) (mset ?A))"
    by (simp add: filter_mset_image_mset)
  also have "filter_mset (\<lambda>p. tlVideoId (snd p) = Some k) (mset ?A)
             = filter_mset (\<lambda>p. fst p = k) (mset ?A)"
    using v by (intro filter_mset_cong) auto
  also have "\<dots> = mset (filter (\<lambda>p. fst p = k) ?A)" by simp
  finally have m: "mset (group_of k (sortedResults xs))
      = mset (map snd (case map_of ?A k of None \<Rightarrow> [] | Some m \<Rightarrow> [(k, m)]))"
    using filter_key_distinct[OF d, of k] by simp
  show ?thesis
  proof (cases "map_of ?A k")
    case None
    then show ?thesis using m by simp
  next
    case (Some a)
    then have "mset (group_of k (sortedResults xs)) = {#a#}" using m by simp
    then show ?thesis using Some by simp
  qed
qed

lemma sorted_sortedResults:
  "sorted_wrt (\<lambda>a b. score_or_0 b \<le> score_or_0 a) (sortedResults xs)"
proof -
  have "sorted (map (\<lambda>m. - score_or_0 m) (sortedResults xs))"
    unfolding sortedResults_def by (rule sorted_sort_key)
  then show ?thesis by (simp add: sorted_map)
qed

lemma is_first_max_ge: "is_first_max m g \<Longrightarrow> x \<in> set g \<Longrightarrow> score_or_0 x \<le> score_or_0 m"
  unfolding is_first_max_def by fastforce

lemma is_first_max_mem: "is_first_max m g \<Longrightarrow> m \<in> set g"
  unfolding is_first_max_def by auto

lemma retained_of_group:
  assumes "ordinary_ids xs" "k \<noteq> []"
  shows "if group_of k xs = [] then group_of k (sortedResults xs) = []
         else \<exists>m. is_first_max m (group_of k xs) \<and> group_of k (sortedResults xs) = [m]"
proof -
  have "acc_inv xs (reduce_all xs)" using assms(1) by (rule acc_inv_reduce_all)
  then have g: "if group_of k xs = [] then map_of (acc_own (reduce_all xs)) k = None
            else \<exists>m. map_of (acc_own (reduce_all xs)) k = Some m \<and> is_first_max m (group_of k xs)"
    using assms(2) unfolding acc_inv_def by blast
  show ?thesis
  proof (cases "group_of k xs = []")
    case True
    then show ?thesis using g group_of_sortedResults[of k xs] by simp
  next
    case False
    then obtain m where "map_of (acc_own (reduce_all xs)) k = Some m" "is_first_max m (group_of k xs)"
      using g by auto
    then show ?thesis using False group_of_sortedResults[of k xs] by simp
  qed
qed

lemma sortedResults_has_id:
  assumes "m \<in> set (sortedResults xs)"
  shows "\<exists>k. k \<noteq> [] \<and> tlVideoId m = Some k"
proof -
  have "kept_inv xs (reduce_all xs)" by (rule kept_inv_reduce_all)
  then have v: "\<forall>p\<in>set (acc_own (reduce_all xs)). fst p \<noteq> [] \<and> tlVideoId (snd p) = Some (fst p)"
    unfolding kept_inv_def by blast
  from assms obtain p where "p \<in> set (acc_own (reduce_all xs))" "m = snd p"
    unfolding set_sortedResults by blast
  then show ?thesis using v by blast
qed

lemmas similarity_eval =
  sortedResults_def uniqueResults_def Object_values_def reduce_all_def reduce_step_def
  acc_get_def acc_set_def inherited_value_def own_property_of_match_def empty_object_def
  Object_prototype_names_def mk_match_def tlVideoId_def score_or_0_def
  is_array_index_def is_digit_def

lemma dedup_law_example:
  "map (\<lambda>m. (tlVideoId m, score m)) (sortedResults dedup_law_input)
        = [(Some ''A'', Some 0.95), (Some ''B'', Some 0.5)]"
  by (simp add: similarity_eval dedup_law_input_def)

text \<open>
  On a merged list in which no target video id names a member of
  \<^verbatim>\<open>Object.prototype\<close>, the dedup and rank step does what its comment says: the
  returned list holds only matches that have a non-empty \<open>tl_video_id\<close>; for every
  target video id \<open>k\<close> it holds no match of \<open>k\<close> when the input has none, and otherwise
  exactly one, the first match of maximum score in the group of \<open>k\<close>; and the returned
  list is sorted by descending score.
\<close>

lemma dedup_rank_ordinary_ids:
  assumes "ordinary_ids allResults"
  shows "(\<forall>m\<in>set (sortedResults allResults). \<exists>k. k \<noteq> [] \<and> tlVideoId m = Some k)
   \<and> (\<forall>k. k \<noteq> [] \<longrightarrow>
         (if group_of k allResults = [] then group_of k (sortedResults allResults) = []
          else \<exists>m. is_first_max m (group_of k allResults)
                   \<and> group_of k (sortedResults allResults) = [m]))
   \<and> sorted_wrt (\<lambda>a b. score_or_0 b \<le> score_or_0 a) (sortedResults allResults)"
  using sortedResults_has_id[of _ allResults] retained_of_group[OF assms]
    sorted_sortedResults[of allResults]
  by blast

lemma dedup_law_input_ordinary: "ordinary_ids dedup_law_input"
  by (simp add: ordinary_ids_def dedup_law_input_def mk_match_def tlVideoId_def
      names_prototype_member_def Object_prototype_names_def)

text \<open>
  Claim C1. The claim promises, for every merged list, exactly one returned match per
  distinct \<open>tl_video_id\<close>. The accumulator of the reduce is the object literal
  \<^verbatim>\<open>{}\<close>, so a target video id that names a member of \<^verbatim>\<open>Object.prototype\<close> is
  not treated as a new key. For the one match of the list \<open>proto_id_input\<close>, whose id is
  \<^verbatim>\<open>__proto__\<close> and whose score is 0.9, the assignment replaces the prototype of the
  accumulator and the returned list is empty. In the list \<open>inherited_id_input\<close> the one
  match of the id \<^verbatim>\<open>constructor\<close> has no score; the inherited function is read as the
  match kept so far, with score 0, and the returned list holds the matches of \<open>A\<close> and
  \<open>B\<close> only. In both lists the group of the id holds one match and the returned list
  holds none of it.
\<close>

theorem prototype_member_id_is_dropped:
  "group_of ''__proto__'' proto_id_input = [mk_match ''m1'' ''__proto__'' 0.9]
   \<and> sortedResults proto_id_input = []
   \<and> group_of ''constructor'' inherited_id_input
       = [(mk_match ''m2'' ''constructor'' 0)\<lparr>score := None\<rparr>]
   \<and> sortedResults inherited_id_input = [mk_match ''m1'' ''A'' 0.9, mk_match ''m3'' ''B'' 0.5]
   \<and> group_of ''constructor'' (sortedResults inherited_id_input) = []"
proof -
  have 1: "sortedResults proto_id_input = []"
    by (simp add: similarity_eval proto_id_input_def)
  have 2: "sortedResults inherited_id_input = [mk_match ''m1'' ''A'' 0.9, mk_match ''m3'' ''B'' 0.5]"
    by (simp add: similarity_eval inherited_id_input_def)
  have 3: "group_of ''__proto__'' proto_id_input = [mk_match ''m1'' ''__proto__'' 0.9]"
    by (simp add: group_of_def proto_id_input_def mk_match_def tlVideoId_def)
  have 4: "group_of ''constructor'' inherited_id_input
       = [(mk_match ''m2'' ''constructor'' 0)\<lparr>score := None\<rparr>]"
    by (simp add: group_of_def inherited_id_input_def mk_match_def tlVideoId_def)
  have 5: "group_of ''constructor'' (sortedResults inherited_id_input) = []"
    unfolding 2 by (simp add: group_of_def mk_match_def tlVideoId_def)
  show ?thesis using 1 2 3 4 5 by simp
qed

text \<open>
  Claim C10. A match whose score is absent counts as score 0 in the dedup and sort
  steps: the reduce step leaves the accumulator unchanged when the current match has no
  score and the match already kept for its \<open>tl_video_id\<close> has a positive score; when the
  group of a target video holds a match of positive score, the match returned for that
  video has a score; and in the returned list every match of positive score comes before
  every match without a score.
\<close>

theorem absent_score_is_zero:
  "(score m = None \<longrightarrow> score_or_0 m = 0)
   \<and> (score current = None \<and> tlVideoId current = Some k \<and> map_of (acc_own acc) k = Some prev
        \<and> 0 < score_or_0 prev \<longrightarrow> reduce_step acc current = acc)
   \<and> (k \<noteq> [] \<and> x \<in> set (group_of k allResults) \<and> 0 < score_or_0 x
        \<and> r \<in> set (group_of k (sortedResults allResults)) \<longrightarrow> score r \<noteq> None)
   \<and> (i < length (sortedResults allResults) \<and> j < length (sortedResults allResults)
        \<and> score (sortedResults allResults ! i) = None
        \<and> 0 < score_or_0 (sortedResults allResults ! j) \<longrightarrow> j < i)"
proof (intro conjI impI)
  show "score_or_0 m = 0" if "score m = None" using that by (simp add: score_or_0_def)
next
  assume "score current = None \<and> tlVideoId current = Some k \<and> map_of (acc_own acc) k = Some prev
        \<and> 0 < score_or_0 prev"
  then show "reduce_step acc current = acc"
    by (simp add: reduce_step_def acc_get_def score_or_0_def)
next
  assume a: "k \<noteq> [] \<and> x \<in> set (group_of k allResults) \<and> 0 < score_or_0 x
        \<and> r \<in> set (group_of k (sortedResults allResults))"
  have inv: "kept_inv allResults (reduce_all allResults)" by (rule kept_inv_reduce_all)
  from a have "map_of (acc_own (reduce_all allResults)) k = Some r"
    using group_of_sortedResults[of k allResults] by (auto split: option.splits)
  then have "score_or_0 x \<le> score_or_0 r" using inv a unfolding kept_inv_def by blast
  then have "0 < score_or_0 r" using a by simp
  then show "score r \<noteq> None" by (cases "score r") (simp_all add: score_or_0_def)
next
  let ?r = "sortedResults allResults"
  assume a: "i < length ?r \<and> j < length ?r \<and> score (?r ! i) = None \<and> 0 < score_or_0 (?r ! j)"
  then have z: "score_or_0 (?r ! i) = 0" by (simp add: score_or_0_def)
  show "j < i"
  proof (rule ccontr)
    assume "\<not> j < i"
    then have "i < j \<or> i = j" by arith
    then show False
    proof
      assume "i < j"
      then have "score_or_0 (?r ! j) \<le> score_or_0 (?r ! i)"
        using sorted_sortedResults[of allResults] a by (simp add: sorted_wrt_iff_nth_less)
      then show False using a z by simp
    next
      assume "i = j"
      then show False using a z by simp
    qed
  qed
qed

lemma absent_score_example:
  "map (\<lambda>m. (tlVideoId m, score m)) (sortedResults absent_score_input)
        = [(Some ''A'', Some 0.3), (Some ''C'', Some 0.2), (Some ''B'', None)]"
  by (simp add: similarity_eval absent_score_input_def)

theorem absent_score_is_zero_witness:
  "score ((mk_match ''m3'' ''B'' 0)\<lparr>score := None\<rparr>) = None
   \<and> score_or_0 ((mk_match ''m3'' ''B'' 0)\<lparr>score := None\<rparr>) = 0
   \<and> map_of [(''A'', mk_match ''m1'' ''A'' 0.3)] ''A'' = Some (mk_match ''m1'' ''A'' 0.3)
   \<and> 0 < score_or_0 (mk_match ''m1'' ''A'' 0.3)
   \<and> reduce_step \<lparr>acc_prototype = None, acc_own = [(''A'', mk_match ''m1'' ''A'' 0.3)]\<rparr>
         ((mk_match ''m2'' ''A'' 0)\<lparr>score := None\<rparr>)
       = \<lparr>acc_prototype = None, acc_own = [(''A'', mk_match ''m1'' ''A'' 0.3)]\<rparr>
   \<and> mk_match ''m1'' ''A'' 0.3 \<in> set (group_of ''A'' absent_score_input)
   \<and> mk_match ''m1'' ''A'' 0.3 \<in> set (group_of ''A'' (sortedResults absent_score_input))
   \<and> score (mk_match ''m1'' ''A'' 0.3) \<noteq> None
   \<and> (2::nat) < length (sortedResults absent_score_input)
   \<and> score (sortedResults absent_score_input ! 2) = None
   \<and> 0 < score_or_0 (sortedResults absent_score_input ! 0)
   \<and> (0::nat) < 2"
proof -
  let ?a = "mk_match ''m1'' ''A'' 0.3"
  let ?n = "(mk_match ''m2'' ''A'' 0)\<lparr>score := None\<rparr>"
  let ?b = "(mk_match ''m3'' ''B'' 0)\<lparr>score := None\<rparr>"
  let ?acc = "\<lparr>acc_prototype = None, acc_own = [(''A'', ?a)]\<rparr>"
  have ex: "sortedResults absent_score_input = [?a, mk_match ''m4'' ''C'' 0.2, ?b]"
    by (simp add: similarity_eval absent_score_input_def)
  have h1: "score ?b = None" by simp
  have h2: "score ?n = None \<and> tlVideoId ?n = Some ''A''
      \<and> map_of (acc_own ?acc) ''A'' = Some ?a \<and> 0 < score_or_0 ?a"
    by (simp add: mk_match_def tlVideoId_def score_or_0_def)
  have h3a: "?a \<in> set (group_of ''A'' absent_score_input) \<and> 0 < score_or_0 ?a"
    by (simp add: group_of_def absent_score_input_def mk_match_def tlVideoId_def score_or_0_def)
  have h3b: "?a \<in> set (group_of ''A'' (sortedResults absent_score_input))"
    unfolding ex by (simp add: group_of_def mk_match_def tlVideoId_def)
  have h3: "''A'' \<noteq> [] \<and> ?a \<in> set (group_of ''A'' absent_score_input) \<and> 0 < score_or_0 ?a
      \<and> ?a \<in> set (group_of ''A'' (sortedResults absent_score_input))"
    using h3a h3b by simp
  have h4: "(2::nat) < length (sortedResults absent_score_input)
   \<and> score (sortedResults absent_score_input ! 2) = None
   \<and> 0 < score_or_0 (sortedResults absent_score_input ! 0)"
    unfolding ex by (simp add: mk_match_def score_or_0_def)
  note inst = absent_score_is_zero[where m = ?b and current = ?n and k = "''A''"
      and acc = ?acc and prev = ?a and x = ?a and r = ?a
      and allResults = absent_score_input and i = 2 and j = 0]
  from inst h1 have c1: "score_or_0 ?b = 0" by blast
  from inst h2 have c2: "reduce_step ?acc ?n = ?acc" by blast
  from inst h3 have c3: "score ?a \<noteq> None" by blast
  from inst h4 have c4: "(0::nat) < 2" by simp
  show ?thesis using h1 h2 h3 h4 c1 c2 c3 c4 by simp
qed

subsection \<open>HashtagClassifier\<close>

lemma D_S: "set demographicsKeywords \<inter> set sectorKeywords = {}"
  by code_simp
lemma D_E: "set demographicsKeywords \<inter> set emotionKeywords = {}"
  by code_simp
lemma D_L: "set demographicsKeywords \<inter> set locationKeywords = {}"
  by code_simp
lemma D_B: "set demographicsKeywords \<inter> set brandKeywords = {}"
  by code_simp
lemma S_E: "set sectorKeywords \<inter> set emotionKeywords = {}"
  by code_simp
lemma S_L: "set sectorKeywords \<inter> set locationKeywords = {}"
  by code_simp
lemma S_B: "set sectorKeywords \<inter> set brandKeywords = {}"
  by code_simp
lemma E_L: "set emotionKeywords \<inter> set locationKeywords = {}"
  by code_simp
lemma E_B: "set emotionKeywords \<inter> set brandKeywords = {}"
  by code_simp
lemma L_B: "set locationKeywords \<inter> set brandKeywords = {}"
  by code_simp

lemma keyword_lists_disjoint:
  "t \<in> set demographicsKeywords \<Longrightarrow> t \<notin> set sectorKeywords \<and> t \<notin> set emotionKeywords
      \<and> t \<notin> set locationKeywords \<and> t \<notin> set brandKeywords"
  "t \<in> set sectorKeywords \<Longrightarrow> t \<notin> set demographicsKeywords \<and> t \<notin> set emotionKeywords
      \<and> t \<notin> set locationKeywords \<and> t \<notin> set brandKeywords"
  "t \<in> set emotionKeywords \<Longrightarrow> t \<notin> set demographicsKeywords \<and> t \<notin> set sectorKeywords
      \<and> t \<notin> set locationKeywords \<and> t \<notin> set brandKeywords"
  "t \<in> set locationKeywords \<Longrightarrow> t \<notin> set demographicsKeywords \<and> t \<notin> set sectorKeywords
      \<and> t \<notin> set emotionKeywords \<and> t \<notin> set brandKeywords"
  "t \<in> set brandKeywords \<Longrightarrow> t \<notin> set demographicsKeywords \<and> t \<notin> set sectorKeywords
      \<and> t \<notin> set emotionKeywords \<and> t \<notin> set locationKeywords"
  using D_S D_E D_L D_B S_E S_L S_B E_L E_B L_B by blast+

lemma classify_tag_uploader_eq: "classify_tag_uploader = classify_tag"
  by (rule ext, rule ext) (simp add: classify_tag_uploader_def classify_tag_def)

lemma final_categoryTags_uploader_eq: "final_categoryTags_uploader hashtagText = final_categoryTags hashtagText"
  by (simp add: final_categoryTags_uploader_def final_categoryTags_def classify_tag_uploader_eq)

lemma classify_tag_cases:
  "classify_tag ct h =
     \<lparr>ct_demographics = ct_demographics ct @ filter (\<lambda>t. t \<in> set demographicsKeywords) [cleanTag h],
      ct_sector = ct_sector ct @ filter (\<lambda>t. t \<in> set sectorKeywords) [cleanTag h],
      ct_emotions = ct_emotions ct @ filter (\<lambda>t. t \<in> set emotionKeywords) [cleanTag h],
      ct_locations = ct_locations ct @ filter (\<lambda>t. t \<in> set locationKeywords) [cleanTag h],
      ct_brands = ct_brands ct @ filter (\<lambda>t. t \<in> set brandKeywords) [cleanTag h]\<rparr>"
proof -
  consider (d) "cleanTag h \<in> set demographicsKeywords"
    | (s) "cleanTag h \<notin> set demographicsKeywords" "cleanTag h \<in> set sectorKeywords"
    | (e) "cleanTag h \<notin> set demographicsKeywords" "cleanTag h \<notin> set sectorKeywords"
          "cleanTag h \<in> set emotionKeywords"
    | (l) "cleanTag h \<notin> set demographicsKeywords" "cleanTag h \<notin> set sectorKeywords"
          "cleanTag h \<notin> set emotionKeywords" "cleanTag h \<in> set locationKeywords"
    | (b) "cleanTag h \<notin> set demographicsKeywords" "cleanTag h \<notin> set sectorKeywords"
          "cleanTag h \<notin> set emotionKeywords" "cleanTag h \<notin> set locationKeywords"
          "cleanTag h \<in> set brandKeywords"
    | (n) "cleanTag h \<notin> set demographicsKeywords" "cleanTag h \<notin> set sectorKeywords"
          "cleanTag h \<notin> set emotionKeywords" "cleanTag h \<notin> set locationKeywords"
          "cleanTag h \<notin> set brandKeywords"
    by blast
  then show ?thesis
  proof cases
    case d
    then show ?thesis using keyword_lists_disjoint(1)[OF d]
      by (simp add: classify_tag_def Let_def)
  next
    case s
    then show ?thesis using keyword_lists_disjoint(2)[OF s(2)]
      by (simp add: classify_tag_def Let_def)
  next
    case e
    then show ?thesis using keyword_lists_disjoint(3)[OF e(3)]
      by (simp add: classify_tag_def Let_def)
  next
    case l
    then show ?thesis using keyword_lists_disjoint(4)[OF l(4)]
      by (simp add: classify_tag_def Let_def)
  next
    case b
    then show ?thesis
      by (simp add: classify_tag_def Let_def)
  next
    case n
    then show ?thesis
      by (simp add: classify_tag_def Let_def)
  qed
qed

lemma foldl_classify_tag:
  "foldl classify_tag ct hs =
     \<lparr>ct_demographics = ct_demographics ct @ filter (\<lambda>t. t \<in> set demographicsKeywords) (map cleanTag hs),
      ct_sector = ct_sector ct @ filter (\<lambda>t. t \<in> set sectorKeywords) (map cleanTag hs),
      ct_emotions = ct_emotions ct @ filter (\<lambda>t. t \<in> set emotionKeywords) (map cleanTag hs),
      ct_locations = ct_locations ct @ filter (\<lambda>t. t \<in> set locationKeywords) (map cleanTag hs),
      ct_brands = ct_brands ct @ filter (\<lambda>t. t \<in> set brandKeywords) (map cleanTag hs)\<rparr>"
proof (induction hs arbitrary: ct)
  case Nil
  show ?case by simp
next
  case (Cons h hs)
  have f: "ct_demographics (classify_tag ct h)
            = ct_demographics ct @ filter (\<lambda>t. t \<in> set demographicsKeywords) [cleanTag h]"
    "ct_sector (classify_tag ct h) = ct_sector ct @ filter (\<lambda>t. t \<in> set sectorKeywords) [cleanTag h]"
    "ct_emotions (classify_tag ct h) = ct_emotions ct @ filter (\<lambda>t. t \<in> set emotionKeywords) [cleanTag h]"
    "ct_locations (classify_tag ct h) = ct_locations ct @ filter (\<lambda>t. t \<in> set locationKeywords) [cleanTag h]"
    "ct_brands (classify_tag ct h) = ct_brands ct @ filter (\<lambda>t. t \<in> set brandKeywords) [cleanTag h]"
    by (simp_all add: classify_tag_cases)
  have app: "\<And>P pre. (pre @ filter P [cleanTag h]) @ filter P (map cleanTag hs)
      = pre @ filter P (map cleanTag (h # hs))"
    by simp
  show ?case
    by (simp only: foldl_Cons Cons.IH f app)
qed


lemma loop_buckets:
  "foldl classify_tag empty_categoryTags (hashtags_of hashtagText) =
     \<lparr>ct_demographics = filter (\<lambda>t. t \<in> set demographicsKeywords) (tokens_of hashtagText),
      ct_sector = filter (\<lambda>t. t \<in> set sectorKeywords) (tokens_of hashtagText),
      ct_emotions = filter (\<lambda>t. t \<in> set emotionKeywords) (tokens_of hashtagText),
      ct_locations = filter (\<lambda>t. t \<in> set locationKeywords) (tokens_of hashtagText),
      ct_brands = filter (\<lambda>t. t \<in> set brandKeywords) (tokens_of hashtagText)\<rparr>"
  by (simp add: foldl_classify_tag empty_categoryTags_def tokens_of_def)

lemma unclassified_tokens_not_keyword:
  assumes "t \<in> set (unclassified_tokens hashtagText)"
  shows "t \<in> set (tokens_of hashtagText) \<and> t \<notin> set demographicsKeywords \<and> t \<notin> set sectorKeywords
     \<and> t \<notin> set emotionKeywords \<and> t \<notin> set locationKeywords \<and> t \<notin> set brandKeywords"
  using assms by (auto simp: unclassified_tokens_def tokens_of_def is_unclassified_def Let_def)

text \<open>The final lists, written with the tokens of the text.\<close>

lemma final_categoryTags_eq:
  "final_categoryTags hashtagText =
     (let ts = tokens_of hashtagText; un = unclassified_tokens hashtagText;
          loc = filter (\<lambda>t. t \<in> set locationKeywords) ts;
          br = filter (\<lambda>t. t \<in> set brandKeywords) ts;
          un1 = (if un \<noteq> [] \<and> loc = [] then tl un else un)
      in \<lparr>ct_demographics = filter (\<lambda>t. t \<in> set demographicsKeywords) ts,
          ct_sector = filter (\<lambda>t. t \<in> set sectorKeywords) ts,
          ct_emotions = filter (\<lambda>t. t \<in> set emotionKeywords) ts,
          ct_locations = (if un \<noteq> [] \<and> loc = [] then [hd un] else loc),
          ct_brands = (if un1 \<noteq> [] \<and> br = [] then [hd un1] else br)\<rparr>)"
proof (cases "filter is_unclassified (hashtags_of hashtagText)")
  case Nil
  then show ?thesis
    by (simp add: final_categoryTags_def loop_buckets fallback_locations_def fallback_brands_def
        unclassified_tokens_def Let_def)
next
  case (Cons u us)
  note c1 = Cons
  show ?thesis
  proof (cases us)
    case Nil
    then show ?thesis using c1
      by (simp add: final_categoryTags_def loop_buckets fallback_locations_def fallback_brands_def
        unclassified_tokens_def Let_def)
  next
    case (Cons v vs)
    then show ?thesis using c1
      by (simp add: final_categoryTags_def loop_buckets fallback_locations_def fallback_brands_def
        unclassified_tokens_def Let_def)
  qed
qed


lemma keywords_of_inj:
  assumes "t \<in> set (keywords_of c1)" "t \<in> set (keywords_of c2)"
  shows "c1 = c2"
proof (cases c1)
  case Demographics
  then show ?thesis using assms keyword_lists_disjoint(1)[of t] by (cases c2) simp_all
next
  case Sector
  then show ?thesis using assms keyword_lists_disjoint(2)[of t] by (cases c2) simp_all
next
  case Emotions
  then show ?thesis using assms keyword_lists_disjoint(3)[of t] by (cases c2) simp_all
next
  case Locations
  then show ?thesis using assms keyword_lists_disjoint(4)[of t] by (cases c2) simp_all
next
  case Brands
  then show ?thesis using assms keyword_lists_disjoint(5)[of t] by (cases c2) simp_all
qed

lemma unclassified_not_keywords_of:
  assumes "t \<in> set (unclassified_tokens hashtagText)"
  shows "t \<notin> set (keywords_of c)"
  using unclassified_tokens_not_keyword[OF assms] by (cases c) simp_all

lemma final_locations_mem:
  assumes "t \<in> set (ct_locations (final_categoryTags hashtagText))"
  shows "t \<in> set locationKeywords
       \<or> (filter (\<lambda>t. t \<in> set locationKeywords) (tokens_of hashtagText) = []
          \<and> (\<exists>rest. unclassified_tokens hashtagText = t # rest))"
proof (cases "unclassified_tokens hashtagText")
  case Nil
  then show ?thesis using assms by (simp add: final_categoryTags_eq Let_def)
next
  case (Cons u us)
  show ?thesis
  proof (cases "filter (\<lambda>t. t \<in> set locationKeywords) (tokens_of hashtagText) = []")
    case True
    then show ?thesis using assms Cons by (simp add: final_categoryTags_eq Let_def)
  next
    case False
    then have "t \<in> set (filter (\<lambda>t. t \<in> set locationKeywords) (tokens_of hashtagText))"
      using assms Cons by (simp add: final_categoryTags_eq Let_def)
    then show ?thesis by simp
  qed
qed

lemma final_brands_mem:
  assumes "t \<in> set (ct_brands (final_categoryTags hashtagText))"
  shows "t \<in> set brandKeywords
       \<or> (filter (\<lambda>t. t \<in> set brandKeywords) (tokens_of hashtagText) = []
          \<and> filter (\<lambda>t. t \<in> set locationKeywords) (tokens_of hashtagText) \<noteq> []
          \<and> (\<exists>rest. unclassified_tokens hashtagText = t # rest))
       \<or> (filter (\<lambda>t. t \<in> set brandKeywords) (tokens_of hashtagText) = []
          \<and> filter (\<lambda>t. t \<in> set locationKeywords) (tokens_of hashtagText) = []
          \<and> (\<exists>u rest. unclassified_tokens hashtagText = u # t # rest))"
proof (cases "filter (\<lambda>t. t \<in> set brandKeywords) (tokens_of hashtagText) = []")
  case False
  then have "ct_brands (final_categoryTags hashtagText)
      = filter (\<lambda>t. t \<in> set brandKeywords) (tokens_of hashtagText)"
    by (simp add: final_categoryTags_eq Let_def)
  then have "t \<in> set (filter (\<lambda>t. t \<in> set brandKeywords) (tokens_of hashtagText))"
    using assms by simp
  then show ?thesis by simp
next
  case br: True
  show ?thesis
  proof (cases "unclassified_tokens hashtagText")
    case Nil
    then show ?thesis using assms br by (simp add: final_categoryTags_eq Let_def)
  next
    case (Cons u us)
    note c1 = Cons
    show ?thesis
    proof (cases "filter (\<lambda>t. t \<in> set locationKeywords) (tokens_of hashtagText) = []")
      case False
      then show ?thesis using assms br c1 by (simp add: final_categoryTags_eq Let_def)
    next
      case True
      show ?thesis
      proof (cases us)
        case Nil
        then show ?thesis using assms br c1 True by (simp add: final_categoryTags_eq Let_def)
      next
        case (Cons v vs)
        then show ?thesis using assms br c1 True by (simp add: final_categoryTags_eq Let_def)
      qed
    qed
  qed
qed

lemma bucket_final_origin:
  assumes "t \<in> set (bucket (final_categoryTags hashtagText) c)"
  shows "t \<in> set (keywords_of c)
       \<or> (t \<in> set (unclassified_tokens hashtagText) \<and> (c = Locations \<or> c = Brands))"
proof (cases c)
  case Demographics
  then show ?thesis using assms by (simp add: final_categoryTags_eq Let_def)
next
  case Sector
  then show ?thesis using assms by (simp add: final_categoryTags_eq Let_def)
next
  case Emotions
  then show ?thesis using assms by (simp add: final_categoryTags_eq Let_def)
next
  case Locations
  then have "t \<in> set (ct_locations (final_categoryTags hashtagText))" using assms by simp
  from final_locations_mem[OF this] show ?thesis using Locations by auto
next
  case Brands
  then have "t \<in> set (ct_brands (final_categoryTags hashtagText))" using assms by simp
  from final_brands_mem[OF this] show ?thesis using Brands by auto
qed

lemma filter_empty_no_keyword:
  "filter (\<lambda>t. t \<in> set K) ts = [] \<longleftrightarrow> (\<forall>u\<in>set ts. u \<notin> set K)"
  by (simp add: filter_empty_conv)

lemma shared_token:
  assumes "c1 \<noteq> c2"
    and "t \<in> set (bucket (final_categoryTags hashtagText) c1)"
    and "t \<in> set (bucket (final_categoryTags hashtagText) c2)"
  shows "{c1, c2} = {Locations, Brands}
       \<and> (\<exists>rest. unclassified_tokens hashtagText = t # t # rest)
       \<and> (\<forall>u\<in>set (tokens_of hashtagText). u \<notin> set locationKeywords \<and> u \<notin> set brandKeywords)"
proof -
  note o1 = bucket_final_origin[OF assms(2)]
  note o2 = bucket_final_origin[OF assms(3)]
  have un: "t \<in> set (unclassified_tokens hashtagText)"
    using o1 o2 assms(1) keywords_of_inj[of t c1 c2] by blast
  then have nk: "t \<notin> set (keywords_of c1)" "t \<notin> set (keywords_of c2)"
    by (simp_all add: unclassified_not_keywords_of)
  then have "(c1 = Locations \<or> c1 = Brands) \<and> (c2 = Locations \<or> c2 = Brands)"
    using o1 o2 by blast
  then have cs: "(c1 = Locations \<and> c2 = Brands) \<or> (c1 = Brands \<and> c2 = Locations)"
    using assms(1) by blast
  then have inl: "t \<in> set (ct_locations (final_categoryTags hashtagText))"
    and inb: "t \<in> set (ct_brands (final_categoryTags hashtagText))"
    using assms(2,3) by auto
  have tl: "t \<notin> set locationKeywords" and tb: "t \<notin> set brandKeywords"
    using unclassified_tokens_not_keyword[OF un] by simp_all
  from final_locations_mem[OF inl] tl
  have l: "filter (\<lambda>t. t \<in> set locationKeywords) (tokens_of hashtagText) = []"
    and l2: "\<exists>rest. unclassified_tokens hashtagText = t # rest"
    by blast+
  from final_brands_mem[OF inb] tb l
  have b: "filter (\<lambda>t. t \<in> set brandKeywords) (tokens_of hashtagText) = []"
    and b2: "\<exists>u rest. unclassified_tokens hashtagText = u # t # rest"
    by blast+
  from l2 b2 have "\<exists>rest. unclassified_tokens hashtagText = t # t # rest" by auto
  moreover have "{c1, c2} = {Locations, Brands}" using cs by auto
  ultimately show ?thesis using l b by (simp add: filter_empty_no_keyword)
qed

lemma repeated_fallback:
  assumes "unclassified_tokens hashtagText = t # u # rest"
    and "\<forall>u\<in>set (tokens_of hashtagText). u \<notin> set locationKeywords \<and> u \<notin> set brandKeywords"
  shows "bucket (final_categoryTags hashtagText) Locations = [t]
       \<and> bucket (final_categoryTags hashtagText) Brands = [u]"
proof -
  have "filter (\<lambda>t. t \<in> set locationKeywords) (tokens_of hashtagText) = []"
    "filter (\<lambda>t. t \<in> set brandKeywords) (tokens_of hashtagText) = []"
    using assms(2) by (simp_all add: filter_empty_no_keyword)
  then show ?thesis using assms(1) by (simp add: final_categoryTags_eq Let_def)
qed

text \<open>
  Claim C2, amended. The lists of two different categories share a token only in one
  way: the two categories are locations and brands, no token of the text is a location
  or a brand keyword, and the first two unclassified tokens are both that token, which
  the two fallback statements then put into locations and into brands. In every other
  case a token of one list is in no other list; in particular a token that matches a
  keyword list is only in the list of that category. The copy of the function in the
  uploader computes the same lists and the same record.
\<close>

theorem token_shared_only_by_repeated_fallback:
  "(c1 \<noteq> c2 \<and> t \<in> set (bucket (final_categoryTags hashtagText) c1)
      \<and> t \<in> set (bucket (final_categoryTags hashtagText) c2)
     \<longrightarrow> {c1, c2} = {Locations, Brands}
        \<and> (\<exists>rest. unclassified_tokens hashtagText = t # t # rest)
        \<and> (\<forall>u\<in>set (tokens_of hashtagText). u \<notin> set locationKeywords \<and> u \<notin> set brandKeywords)
        \<and> bucket (final_categoryTags hashtagText) Locations = [t]
        \<and> bucket (final_categoryTags hashtagText) Brands = [t])
   \<and> (c1 \<noteq> c2 \<and> t \<in> set (bucket (final_categoryTags hashtagText) c1)
        \<and> \<not> (\<exists>rest. unclassified_tokens hashtagText = t # t # rest)
     \<longrightarrow> t \<notin> set (bucket (final_categoryTags hashtagText) c2))
   \<and> final_categoryTags_uploader hashtagText = final_categoryTags hashtagText
   \<and> parseHashtags_uploader hashtagText = parseHashtags hashtagText"
proof (intro conjI impI)
  assume a: "c1 \<noteq> c2 \<and> t \<in> set (bucket (final_categoryTags hashtagText) c1)
      \<and> t \<in> set (bucket (final_categoryTags hashtagText) c2)"
  then have s: "{c1, c2} = {Locations, Brands}
       \<and> (\<exists>rest. unclassified_tokens hashtagText = t # t # rest)
       \<and> (\<forall>u\<in>set (tokens_of hashtagText). u \<notin> set locationKeywords \<and> u \<notin> set brandKeywords)"
    using shared_token[of c1 c2 t hashtagText] by blast
  then obtain rest where r: "unclassified_tokens hashtagText = t # t # rest" by blast
  have rf: "bucket (final_categoryTags hashtagText) Locations = [t]
       \<and> bucket (final_categoryTags hashtagText) Brands = [t]"
    using repeated_fallback[OF r] s by blast
  show "{c1, c2} = {Locations, Brands}" using s by blast
  show "\<exists>rest. unclassified_tokens hashtagText = t # t # rest" using s by blast
  show "\<forall>u\<in>set (tokens_of hashtagText). u \<notin> set locationKeywords \<and> u \<notin> set brandKeywords"
    using s by blast
  show "bucket (final_categoryTags hashtagText) Locations = [t]" using rf by blast
  show "bucket (final_categoryTags hashtagText) Brands = [t]" using rf by blast
next
  assume "c1 \<noteq> c2 \<and> t \<in> set (bucket (final_categoryTags hashtagText) c1)
        \<and> \<not> (\<exists>rest. unclassified_tokens hashtagText = t # t # rest)"
  then show "t \<notin> set (bucket (final_categoryTags hashtagText) c2)"
    using shared_token[of c1 c2 t hashtagText] by blast
next
  show "final_categoryTags_uploader hashtagText = final_categoryTags hashtagText"
    by (rule final_categoryTags_uploader_eq)
  then show "parseHashtags_uploader hashtagText = parseHashtags hashtagText"
    by (simp add: parseHashtags_uploader_def parseHashtags_def)
qed

lemma hashtags_of_foo_foo: "hashtags_of ''#foo #foo'' = [''#foo'', ''#foo'']"
  by (simp add: hashtags_of_def split_whitespace_def replace_newlines_def is_space_def startsWith_hash_def)

lemma cleanTag_foo: "cleanTag ''#foo'' = ''foo''"
  by (simp add: cleanTag_def toLowerCase_def toLowerCase_char_def)

lemma foo_no_keyword:
  "''foo'' \<notin> set demographicsKeywords" "''foo'' \<notin> set sectorKeywords"
  "''foo'' \<notin> set emotionKeywords" "''foo'' \<notin> set locationKeywords"
  "''foo'' \<notin> set brandKeywords"
  by (simp_all add: demographicsKeywords_def sectorKeywords_def
      emotionKeywords_def locationKeywords_def brandKeywords_def)

lemma final_categoryTags_foo_foo:
  "final_categoryTags ''#foo #foo'' =
     \<lparr>ct_demographics = [], ct_sector = [], ct_emotions = [], ct_locations = [''foo''], ct_brands = [''foo'']\<rparr>"
  by (simp add: final_categoryTags_def hashtags_of_foo_foo classify_tag_def cleanTag_foo foo_no_keyword
      is_unclassified_def Let_def fallback_locations_def fallback_brands_def empty_categoryTags_def)


text \<open>
  Claim C2 as stated fails: for the text \<^verbatim>\<open>#foo #foo\<close> the token \<open>foo\<close> is in the
  list of locations and in the list of brands, and both fields of the record are \<open>foo\<close>.
\<close>

theorem token_in_two_buckets_counterexample:
  "Locations \<noteq> Brands
   \<and> ''foo'' \<in> set (bucket (final_categoryTags ''#foo #foo'') Locations)
   \<and> ''foo'' \<in> set (bucket (final_categoryTags ''#foo #foo'') Brands)
   \<and> locations (parseHashtags ''#foo #foo'') = ''foo''
   \<and> brands (parseHashtags ''#foo #foo'') = ''foo''"
  by (simp add: parseHashtags_def final_categoryTags_foo_foo to_metadata_def field_of_def)

lemma hashtags_of_foo_tech: "hashtags_of ''#foo #tech'' = [''#foo'', ''#tech'']"
  by (simp add: hashtags_of_def split_whitespace_def replace_newlines_def is_space_def startsWith_hash_def)

lemma cleanTag_tech: "cleanTag ''#tech'' = ''tech''"
  by (simp add: cleanTag_def toLowerCase_def toLowerCase_char_def)

lemma tech_keyword:
  "''tech'' \<notin> set demographicsKeywords" "''tech'' \<in> set sectorKeywords"
  by (simp_all add: demographicsKeywords_def sectorKeywords_def)

lemma final_categoryTags_foo_tech:
  "final_categoryTags ''#foo #tech'' =
     \<lparr>ct_demographics = [], ct_sector = [''tech''], ct_emotions = [], ct_locations = [''foo''], ct_brands = []\<rparr>"
  by (simp add: final_categoryTags_def hashtags_of_foo_tech classify_tag_def cleanTag_foo cleanTag_tech
      foo_no_keyword tech_keyword is_unclassified_def Let_def fallback_locations_def fallback_brands_def
      empty_categoryTags_def)

theorem token_shared_only_by_repeated_fallback_witness:
  "Locations \<noteq> Brands
   \<and> ''foo'' \<in> set (bucket (final_categoryTags ''#foo #foo'') Locations)
   \<and> ''foo'' \<in> set (bucket (final_categoryTags ''#foo #foo'') Brands)
   \<and> (\<exists>rest. unclassified_tokens ''#foo #foo'' = ''foo'' # ''foo'' # rest)
   \<and> bucket (final_categoryTags ''#foo #foo'') Locations = [''foo'']
   \<and> bucket (final_categoryTags ''#foo #foo'') Brands = [''foo'']
   \<and> Sector \<noteq> Locations
   \<and> ''tech'' \<in> set (bucket (final_categoryTags ''#foo #tech'') Sector)
   \<and> \<not> (\<exists>rest. unclassified_tokens ''#foo #tech'' = ''tech'' # ''tech'' # rest)
   \<and> ''tech'' \<notin> set (bucket (final_categoryTags ''#foo #tech'') Locations)"
proof -
  have h: "Locations \<noteq> Brands
   \<and> ''foo'' \<in> set (bucket (final_categoryTags ''#foo #foo'') Locations)
   \<and> ''foo'' \<in> set (bucket (final_categoryTags ''#foo #foo'') Brands)"
    by (simp add: final_categoryTags_foo_foo)
  have c: "(\<exists>rest. unclassified_tokens ''#foo #foo'' = ''foo'' # ''foo'' # rest)
   \<and> bucket (final_categoryTags ''#foo #foo'') Locations = [''foo'']
   \<and> bucket (final_categoryTags ''#foo #foo'') Brands = [''foo'']"
    using token_shared_only_by_repeated_fallback[of Locations Brands "''foo''" "''#foo #foo''"] h
    by blast
  have u: "unclassified_tokens ''#foo #tech'' = [''foo'']"
    by (simp add: unclassified_tokens_def hashtags_of_foo_tech is_unclassified_def cleanTag_foo
        cleanTag_tech foo_no_keyword tech_keyword)
  have h2: "Sector \<noteq> Locations
   \<and> ''tech'' \<in> set (bucket (final_categoryTags ''#foo #tech'') Sector)
   \<and> \<not> (\<exists>rest. unclassified_tokens ''#foo #tech'' = ''tech'' # ''tech'' # rest)"
    by (simp add: final_categoryTags_foo_tech u)
  have c2: "''tech'' \<notin> set (bucket (final_categoryTags ''#foo #tech'') Locations)"
    using token_shared_only_by_repeated_fallback[of Sector Locations "''tech''" "''#foo #tech''"] h2
    by blast
  show ?thesis using h c h2 c2 by blast
qed

lemma all_unclassified:
  assumes "\<forall>t\<in>set (tokens_of hashtagText). t \<notin> set demographicsKeywords \<and> t \<notin> set sectorKeywords
       \<and> t \<notin> set emotionKeywords \<and> t \<notin> set locationKeywords \<and> t \<notin> set brandKeywords"
  shows "unclassified_tokens hashtagText = tokens_of hashtagText"
proof -
  have "filter is_unclassified (hashtags_of hashtagText) = hashtags_of hashtagText"
    using assms by (auto simp: filter_id_conv is_unclassified_def tokens_of_def Let_def)
  then show ?thesis by (simp add: unclassified_tokens_def tokens_of_def)
qed

lemma final_categoryTags_no_keyword:
  assumes "\<forall>t\<in>set (tokens_of hashtagText). t \<notin> set demographicsKeywords \<and> t \<notin> set sectorKeywords
       \<and> t \<notin> set emotionKeywords \<and> t \<notin> set locationKeywords \<and> t \<notin> set brandKeywords"
  shows "final_categoryTags hashtagText =
       \<lparr>ct_demographics = [], ct_sector = [], ct_emotions = [],
        ct_locations = take 1 (tokens_of hashtagText),
        ct_brands = take 1 (drop 1 (tokens_of hashtagText))\<rparr>"
proof -
  have f: "filter (\<lambda>t. t \<in> set demographicsKeywords) (tokens_of hashtagText) = []"
    "filter (\<lambda>t. t \<in> set sectorKeywords) (tokens_of hashtagText) = []"
    "filter (\<lambda>t. t \<in> set emotionKeywords) (tokens_of hashtagText) = []"
    "filter (\<lambda>t. t \<in> set locationKeywords) (tokens_of hashtagText) = []"
    "filter (\<lambda>t. t \<in> set brandKeywords) (tokens_of hashtagText) = []"
    using assms by (simp_all add: filter_empty_no_keyword)
  show ?thesis
  proof (cases "tokens_of hashtagText")
    case Nil
    then show ?thesis using f
      by (simp add: final_categoryTags_eq all_unclassified[OF assms] Let_def)
  next
    case (Cons a as)
    then show ?thesis using f
      by (cases as) (simp_all add: final_categoryTags_eq all_unclassified[OF assms] Let_def)
  qed
qed

lemma field_of_take_1: "field_of (take 1 ts) = (case ts of [] \<Rightarrow> [] | t # _ \<Rightarrow> t)"
  by (cases ts) (simp_all add: field_of_def)

lemma field_of_Nil: "field_of [] = []"
  by (simp add: field_of_def)

lemma hashtags_of_unknown:
  "hashtags_of ''#unknowntag1 #unknowntag2'' = [''#unknowntag1'', ''#unknowntag2'']"
  by (simp add: hashtags_of_def split_whitespace_def replace_newlines_def is_space_def startsWith_hash_def)

lemma tokens_of_unknown: "tokens_of ''#unknowntag1 #unknowntag2'' = [''unknowntag1'', ''unknowntag2'']"
  by (simp add: tokens_of_def hashtags_of_unknown cleanTag_def toLowerCase_def toLowerCase_char_def)

lemma unknown_no_keyword:
  "\<forall>t\<in>set (tokens_of ''#unknowntag1 #unknowntag2''). t \<notin> set demographicsKeywords
       \<and> t \<notin> set sectorKeywords \<and> t \<notin> set emotionKeywords \<and> t \<notin> set locationKeywords
       \<and> t \<notin> set brandKeywords"
  by (simp add: tokens_of_unknown demographicsKeywords_def sectorKeywords_def
      emotionKeywords_def locationKeywords_def brandKeywords_def)

lemma parseHashtags_unknown:
  "parseHashtags ''#unknowntag1 #unknowntag2'' =
      \<lparr>source = [], sector = [], emotions = [], brands = ''unknowntag2'',
       locations = ''unknowntag1'', demographics = []\<rparr>"
  by (simp add: parseHashtags_def final_categoryTags_no_keyword[OF unknown_no_keyword]
      tokens_of_unknown to_metadata_def field_of_def)

text \<open>
  Claim C3. When no token of the text matches any of the five keyword lists, the list
  of locations is the first token (if there is one), the list of brands is the token
  after it (if there is one), and the other lists are empty; the record has the first
  token as \<open>locations\<close>, the second as \<open>brands\<close> and the empty string in the other four
  fields. For \<^verbatim>\<open>#unknowntag1 #unknowntag2\<close> the record has
  \<open>locations = unknowntag1\<close> and \<open>brands = unknowntag2\<close>.
\<close>

theorem fallback_when_no_keyword_matches:
  "((\<forall>t\<in>set (tokens_of hashtagText). t \<notin> set demographicsKeywords \<and> t \<notin> set sectorKeywords
       \<and> t \<notin> set emotionKeywords \<and> t \<notin> set locationKeywords \<and> t \<notin> set brandKeywords)
    \<longrightarrow> final_categoryTags hashtagText =
          \<lparr>ct_demographics = [], ct_sector = [], ct_emotions = [],
           ct_locations = take 1 (tokens_of hashtagText),
           ct_brands = take 1 (drop 1 (tokens_of hashtagText))\<rparr>
      \<and> parseHashtags hashtagText =
          \<lparr>source = [], sector = [], emotions = [],
           brands = (case drop 1 (tokens_of hashtagText) of [] \<Rightarrow> [] | t # _ \<Rightarrow> t),
           locations = (case tokens_of hashtagText of [] \<Rightarrow> [] | t # _ \<Rightarrow> t),
           demographics = []\<rparr>)
   \<and> parseHashtags ''#unknowntag1 #unknowntag2'' =
      \<lparr>source = [], sector = [], emotions = [], brands = ''unknowntag2'',
       locations = ''unknowntag1'', demographics = []\<rparr>"
proof (intro conjI impI)
  assume a: "\<forall>t\<in>set (tokens_of hashtagText). t \<notin> set demographicsKeywords \<and> t \<notin> set sectorKeywords
       \<and> t \<notin> set emotionKeywords \<and> t \<notin> set locationKeywords \<and> t \<notin> set brandKeywords"
  show f: "final_categoryTags hashtagText =
          \<lparr>ct_demographics = [], ct_sector = [], ct_emotions = [],
           ct_locations = take 1 (tokens_of hashtagText),
           ct_brands = take 1 (drop 1 (tokens_of hashtagText))\<rparr>"
    by (rule final_categoryTags_no_keyword[OF a])
  show "parseHashtags hashtagText =
          \<lparr>source = [], sector = [], emotions = [],
           brands = (case drop 1 (tokens_of hashtagText) of [] \<Rightarrow> [] | t # _ \<Rightarrow> t),
           locations = (case tokens_of hashtagText of [] \<Rightarrow> [] | t # _ \<Rightarrow> t),
           demographics = []\<rparr>"
    unfolding parseHashtags_def f to_metadata_def
    using field_of_take_1[of "tokens_of hashtagText"]
      field_of_take_1[of "drop 1 (tokens_of hashtagText)"] field_of_Nil
    by simp
next
  show "parseHashtags ''#unknowntag1 #unknowntag2'' =
      \<lparr>source = [], sector = [], emotions = [], brands = ''unknowntag2'',
       locations = ''unknowntag1'', demographics = []\<rparr>"
    by (rule parseHashtags_unknown)
qed

theorem fallback_when_no_keyword_matches_witness:
  "tokens_of ''#Cats #dogs #birds'' = [''cats'', ''dogs'', ''birds'']
   \<and> set [''cats'', ''dogs'', ''birds'']
       \<inter> (set demographicsKeywords \<union> set sectorKeywords \<union> set emotionKeywords
          \<union> set locationKeywords \<union> set brandKeywords) = {}
   \<and> parseHashtags ''#Cats #dogs #birds'' =
          \<lparr>source = [], sector = [], emotions = [], brands = ''dogs'', locations = ''cats'',
           demographics = []\<rparr>"
proof -
  have hs: "hashtags_of ''#Cats #dogs #birds'' = [''#Cats'', ''#dogs'', ''#birds'']"
    by (simp add: hashtags_of_def split_whitespace_def replace_newlines_def is_space_def
        startsWith_hash_def)
  have "cleanTag ''#Cats'' = ''cats''" "cleanTag ''#dogs'' = ''dogs''" "cleanTag ''#birds'' = ''birds''"
    by code_simp+
  then have ts: "tokens_of ''#Cats #dogs #birds'' = [''cats'', ''dogs'', ''birds'']"
    by (simp add: tokens_of_def hs)
  have h: "\<forall>t\<in>set (tokens_of ''#Cats #dogs #birds''). t \<notin> set demographicsKeywords
       \<and> t \<notin> set sectorKeywords \<and> t \<notin> set emotionKeywords \<and> t \<notin> set locationKeywords
       \<and> t \<notin> set brandKeywords"
    by (simp add: ts demographicsKeywords_def sectorKeywords_def
      emotionKeywords_def locationKeywords_def brandKeywords_def)
  have "parseHashtags ''#Cats #dogs #birds'' =
          \<lparr>source = [], sector = [], emotions = [],
           brands = (case drop 1 (tokens_of ''#Cats #dogs #birds'') of [] \<Rightarrow> [] | t # _ \<Rightarrow> t),
           locations = (case tokens_of ''#Cats #dogs #birds'' of [] \<Rightarrow> [] | t # _ \<Rightarrow> t),
           demographics = []\<rparr>"
    using fallback_when_no_keyword_matches[of "''#Cats #dogs #birds''"] h by blast
  then have p: "parseHashtags ''#Cats #dogs #birds'' =
          \<lparr>source = [], sector = [], emotions = [], brands = ''dogs'', locations = ''cats'',
           demographics = []\<rparr>"
    by (simp add: ts)
  have d: "set [''cats'', ''dogs'', ''birds'']
       \<inter> (set demographicsKeywords \<union> set sectorKeywords \<union> set emotionKeywords
          \<union> set locationKeywords \<union> set brandKeywords) = {}"
    using h unfolding ts by auto
  show ?thesis using ts d p by blast
qed

subsection \<open>SimilarityMatcher: failures of the fan-out queries\<close>

lemma fan_out_Throws_iff:
  "(\<exists>e. fan_out query indexId n clips = Throws e)
   \<longleftrightarrow> (\<exists>i<length clips. \<exists>e. query (n + i) (fanout_request indexId (clips ! i)) = Throws e)"
proof (induction clips arbitrary: n)
  case Nil
  show ?case by simp
next
  case (Cons c cs)
  show ?case
  proof (cases "query n (fanout_request indexId c)")
    case (Throws e)
    then have "\<exists>i<length (c # cs). \<exists>e. query (n + i) (fanout_request indexId ((c # cs) ! i)) = Throws e"
      by (intro exI[of _ 0]) simp
    then show ?thesis using Throws by simp
  next
    case (Returns r)
    have "(\<exists>i<length (c # cs). \<exists>e. query (n + i) (fanout_request indexId ((c # cs) ! i)) = Throws e)
      \<longleftrightarrow> (\<exists>i<length cs. \<exists>e. query (Suc n + i) (fanout_request indexId (cs ! i)) = Throws e)"
      (is "?L \<longleftrightarrow> ?R")
    proof
      assume ?L
      then obtain i e where i: "i < length (c # cs)"
        "query (n + i) (fanout_request indexId ((c # cs) ! i)) = Throws e" by blast
      then have "i \<noteq> 0" using Returns by (cases i) auto
      then obtain j where "i = Suc j" by (cases i) auto
      then show ?R using i by (intro exI[of _ j]) auto
    next
      assume ?R
      then obtain j e where "j < length cs"
        "query (Suc n + j) (fanout_request indexId (cs ! j)) = Throws e" by blast
      then show ?L by (intro exI[of _ "Suc j"]) auto
    qed
    moreover have "(\<exists>e. fan_out query indexId n (c # cs) = Throws e)
       \<longleftrightarrow> (\<exists>e. fan_out query indexId (Suc n) cs = Throws e)"
      using Returns by (auto split: outcome.splits)
    ultimately show ?thesis using Cons.IH[of "Suc n"] by simp
  qed
qed

text \<open>
  Claim C7. When the query for the clips of the source video returns at least one clip
  and some fan-out query throws, the handler answers with the error body and status 500:
  the error reaches the caller, and no list of matches is returned, neither a partial
  one nor an empty one. When no fan-out query throws, the handler answers with the
  ranked list of the merged results.
\<close>

theorem fanout_failure_propagates:
  "(query 0 (source_request videoId) = Returns originalClipQuery
      \<and> matches originalClipQuery = Some clips \<and> clips \<noteq> []
      \<and> (\<exists>i<length clips. \<exists>e. query (Suc i) (fanout_request indexId (clips ! i)) = Throws e)
    \<longrightarrow> POST query videoId indexId = error_500)
   \<and> (query 0 (source_request videoId) = Returns originalClipQuery
      \<and> matches originalClipQuery = Some clips
      \<and> \<not> (\<exists>i<length clips. \<exists>e. query (Suc i) (fanout_request indexId (clips ! i)) = Throws e)
    \<longrightarrow> (\<exists>similarResults. POST query videoId indexId
            = Json_ok (sortedResults (merge_results similarResults))))
   \<and> error_500 \<noteq> Json_ok ms"
proof (intro conjI impI)
  assume a: "query 0 (source_request videoId) = Returns originalClipQuery
      \<and> matches originalClipQuery = Some clips \<and> clips \<noteq> []
      \<and> (\<exists>i<length clips. \<exists>e. query (Suc i) (fanout_request indexId (clips ! i)) = Throws e)"
  then have "\<exists>e. fan_out query indexId 1 clips = Throws e"
    using fan_out_Throws_iff[of query indexId 1 clips] by simp
  then obtain e where "fan_out query indexId 1 clips = Throws e" by blast
  then show "POST query videoId indexId = error_500"
    using a by (simp add: POST_def)
next
  assume a: "query 0 (source_request videoId) = Returns originalClipQuery
      \<and> matches originalClipQuery = Some clips
      \<and> \<not> (\<exists>i<length clips. \<exists>e. query (Suc i) (fanout_request indexId (clips ! i)) = Throws e)"
  then have "\<not> (\<exists>e. fan_out query indexId 1 clips = Throws e)"
    using fan_out_Throws_iff[of query indexId 1 clips] by simp
  then obtain rs where rs: "fan_out query indexId 1 clips = Returns rs"
    by (cases "fan_out query indexId 1 clips") auto
  show "\<exists>similarResults. POST query videoId indexId
            = Json_ok (sortedResults (merge_results similarResults))"
  proof (cases "clips = []")
    case True
    then have "POST query videoId indexId = Json_ok (sortedResults (merge_results []))"
      using a by (simp add: POST_def)
    then show ?thesis by blast
  next
    case False
    then have "POST query videoId indexId = Json_ok (sortedResults (merge_results rs))"
      using a rs by (simp add: POST_def)
    then show ?thesis by blast
  qed
next
  show "error_500 \<noteq> Json_ok ms" by (simp add: error_500_def)
qed

theorem fanout_failure_propagates_witness:
  "failing_store 0 (source_request ''S'')
      = Returns \<lparr>matches = Some [mk_match ''c1'' ''S'' 1, mk_match ''c2'' ''S'' 1]\<rparr>
   \<and> [mk_match ''c1'' ''S'' 1, mk_match ''c2'' ''S'' 1] \<noteq> []
   \<and> (\<exists>i<length [mk_match ''c1'' ''S'' 1, mk_match ''c2'' ''S'' 1]. \<exists>e.
         failing_store (Suc i) (fanout_request ''idx'' ([mk_match ''c1'' ''S'' 1, mk_match ''c2'' ''S'' 1] ! i))
           = Throws e)
   \<and> POST failing_store ''S'' ''idx'' = error_500
   \<and> working_store 0 (source_request ''S'') = Returns \<lparr>matches = Some [mk_match ''c1'' ''S'' 1]\<rparr>
   \<and> \<not> (\<exists>i<length [mk_match ''c1'' ''S'' 1]. \<exists>e.
         working_store (Suc i) (fanout_request ''idx'' ([mk_match ''c1'' ''S'' 1] ! i)) = Throws e)
   \<and> (\<exists>similarResults. POST working_store ''S'' ''idx''
            = Json_ok (sortedResults (merge_results similarResults)))"
proof -
  let ?clips = "[mk_match ''c1'' ''S'' 1, mk_match ''c2'' ''S'' 1]"
  have f: "\<exists>i<length ?clips. \<exists>e.
         failing_store (Suc i) (fanout_request ''idx'' (?clips ! i)) = Throws e"
    by (intro exI[of _ 1]) (simp add: failing_store_def)
  have h1: "failing_store 0 (source_request ''S'') = Returns \<lparr>matches = Some ?clips\<rparr>
      \<and> matches \<lparr>matches = Some ?clips\<rparr> = Some ?clips \<and> ?clips \<noteq> []
      \<and> (\<exists>i<length ?clips. \<exists>e.
         failing_store (Suc i) (fanout_request ''idx'' (?clips ! i)) = Throws e)"
    using f by (simp add: failing_store_def)
  have c1: "POST failing_store ''S'' ''idx'' = error_500"
    using fanout_failure_propagates[of failing_store "''S''" "\<lparr>matches = Some ?clips\<rparr>" ?clips "''idx''"]
      h1 by blast
  have h2: "working_store 0 (source_request ''S'') = Returns \<lparr>matches = Some [mk_match ''c1'' ''S'' 1]\<rparr>
      \<and> matches \<lparr>matches = Some [mk_match ''c1'' ''S'' 1]\<rparr> = Some [mk_match ''c1'' ''S'' 1]
      \<and> \<not> (\<exists>i<length [mk_match ''c1'' ''S'' 1]. \<exists>e.
         working_store (Suc i) (fanout_request ''idx'' ([mk_match ''c1'' ''S'' 1] ! i)) = Throws e)"
    by (simp add: working_store_def)
  have c2: "\<exists>similarResults. POST working_store ''S'' ''idx''
            = Json_ok (sortedResults (merge_results similarResults))"
    using fanout_failure_propagates[of working_store "''S''"
        "\<lparr>matches = Some [mk_match ''c1'' ''S'' 1]\<rparr>" "[mk_match ''c1'' ''S'' 1]" "''idx''"]
      h2 by blast
  show ?thesis using h1 c1 h2 c2 by blast
qed

subsection \<open>Embedding storage: the retry loop\<close>






text \<open>
  The function of \<^verbatim>\<open>apiHooks.ts\<close> always returns a result. The retry loop of
  \<^verbatim>\<open>processCompletedVideo\<close> does not call it.
\<close>

lemma getAndStoreEmbeddings_returns: "\<exists>r. getAndStoreEmbeddings env = Returns r"
  by (simp add: getAndStoreEmbeddings_def split: outcome.splits option.splits)

text \<open>
  The copy in the uploader rejects only when the body of a fine answer of the store
  cannot be read; the retry loop catches that and counts the attempt as failed.
\<close>

lemma getAndStoreEmbeddings_uploader_throws:
  assumes "getAndStoreEmbeddings_uploader statusText env = Throws msg"
  shows "\<exists>resp. store_fetch env = Returns resp \<and> ok resp \<and> json resp = Throws msg"
  using assms
  by (auto simp add: getAndStoreEmbeddings_uploader_def failure_def
      split: outcome.splits option.splits if_splits)
















subsection \<open>MetadataIngestionScheduler: eligibility\<close>

lemma populated_is_skipped:
  assumes "user_metadata video = Some um"
    and "truthy (map_of um ''source'') \<or> truthy (map_of um ''topic_category'')
       \<or> truthy (map_of um ''emotions'') \<or> truthy (map_of um ''brands'')
       \<or> truthy (map_of um ''locations'')"
  shows "\<not> metadata_missing video"
    and "video \<notin> set (videosNeedingMetadata cl recentUploads videos)"
    and "video \<notin> set (filterVideosNeedingMetadata videos processedIds inProcessingIds)"
    and "Generate (video_id video) \<notin> set (calls st) \<Longrightarrow>
         Generate (video_id video) \<notin> set (calls (snd (single_start adsIndexId cl video st)))"
proof -
  have "um \<noteq> []" using assms(2) by (auto simp: truthy_def)
  then show m: "\<not> metadata_missing video"
    using assms by (auto simp: metadata_missing_def)
  show "video \<notin> set (videosNeedingMetadata cl recentUploads videos)"
    using m by (simp add: videosNeedingMetadata_def)
  show "video \<notin> set (filterVideosNeedingMetadata videos processedIds inProcessingIds)"
    using m by (simp add: filterVideosNeedingMetadata_def)
  show "Generate (video_id video) \<notin> set (calls (snd (single_start adsIndexId cl video st)))"
    if "Generate (video_id video) \<notin> set (calls st)"
    using m that by (simp add: single_start_def Let_def)
qed

lemma hashtags_of_male_tech: "hashtags_of ''#male #tech'' = [''#male'', ''#tech'']"
  by (simp add: hashtags_of_def split_whitespace_def replace_newlines_def is_space_def startsWith_hash_def)

lemma cleanTag_male_tech: "cleanTag ''#male'' = ''male''" "cleanTag ''#tech'' = ''tech''"
  by (simp_all add: cleanTag_def toLowerCase_def toLowerCase_char_def)

lemma parseHashtags_male_tech:
  "parseHashtags ''#male #tech'' =
     \<lparr>source = [], sector = ''tech'', emotions = [], brands = [], locations = [],
      demographics = ''male''\<rparr>"
  by (simp add: parseHashtags_def final_categoryTags_def hashtags_of_male_tech classify_tag_def
      cleanTag_male_tech is_unclassified_def Let_def fallback_locations_def fallback_brands_def
      empty_categoryTags_def to_metadata_def field_of_def demographicsKeywords_def sectorKeywords_def)

text \<open>
  Claim C4, at a failing input. The video \<open>v2\<close> carries the metadata that the classifier
  produces for \<^verbatim>\<open>#male #tech\<close>: its \<^verbatim>\<open>sector\<close> is \<^verbatim>\<open>tech\<close>, the key under which
  the classifier writes the category and under which the page reads it for display. The
  three tests for missing metadata read \<^verbatim>\<open>topic_category\<close> instead, so both filters
  keep the video, and the operation calls \<^verbatim>\<open>generateMetadata\<close> with its id. The same
  happens for the video \<open>v1\<close> whose metadata is only \<^verbatim>\<open>sector: "tech"\<close>.
\<close>

theorem sector_only_video_is_generated:
  "parseHashtags ''#male #tech'' =
     \<lparr>source = [], sector = ''tech'', emotions = [], brands = [], locations = [],
      demographics = ''male''\<rparr>
   \<and> user_metadata classified_video =
       Some [(''source'', []), (''sector'', ''tech''), (''emotions'', []), (''brands'', []),
             (''locations'', []), (''demographics'', ''male'')]
   \<and> filterVideosNeedingMetadata [classified_video] {} [] = [classified_video]
   \<and> videosNeedingMetadata empty_closure [] [classified_video] = [classified_video]
   \<and> single_start ''ads'' empty_closure classified_video empty_state
       = (AwaitGenerate, \<lparr>processedVideoIds = {}, videosInProcessing = [''v2''],
                           calls = [Generate ''v2'']\<rparr>)
   \<and> truthy (map_of [(''sector'', ''tech'')] ''sector'')
   \<and> user_metadata sector_only_video = Some [(''sector'', ''tech'')]
   \<and> filterVideosNeedingMetadata [sector_only_video] {} [] = [sector_only_video]
   \<and> videosNeedingMetadata empty_closure [] [sector_only_video] = [sector_only_video]
   \<and> single_start ''ads'' empty_closure sector_only_video empty_state
       = (AwaitGenerate, \<lparr>processedVideoIds = {}, videosInProcessing = [''v1''],
                           calls = [Generate ''v1'']\<rparr>)"
proof -
  have u: "user_metadata classified_video =
       Some [(''source'', []), (''sector'', ''tech''), (''emotions'', []), (''brands'', []),
             (''locations'', []), (''demographics'', ''male'')]"
    by (simp add: classified_video_def stored_entries_def parseHashtags_male_tech)
  have i: "video_id classified_video = ''v2''" by (simp add: classified_video_def)
  have m: "metadata_missing classified_video"
    by (simp add: metadata_missing_def u truthy_def)
  have a: "filterVideosNeedingMetadata [classified_video] {} [] = [classified_video]"
    by (simp add: filterVideosNeedingMetadata_def m)
  have b: "videosNeedingMetadata empty_closure [] [classified_video] = [classified_video]"
    by (simp add: videosNeedingMetadata_def m empty_closure_def isStillIndexing_def)
  have c: "single_start ''ads'' empty_closure classified_video empty_state
       = (AwaitGenerate, \<lparr>processedVideoIds = {}, videosInProcessing = [''v2''],
                           calls = [Generate ''v2'']\<rparr>)"
    by (simp add: single_start_def m i empty_closure_def empty_state_def Let_def)
  have d: "truthy (map_of [(''sector'', ''tech'')] ''sector'')
   \<and> user_metadata sector_only_video = Some [(''sector'', ''tech'')]
   \<and> filterVideosNeedingMetadata [sector_only_video] {} [] = [sector_only_video]
   \<and> videosNeedingMetadata empty_closure [] [sector_only_video] = [sector_only_video]
   \<and> single_start ''ads'' empty_closure sector_only_video empty_state
       = (AwaitGenerate, \<lparr>processedVideoIds = {}, videosInProcessing = [''v1''],
                           calls = [Generate ''v1'']\<rparr>)"
    by (simp add: truthy_def sector_only_video_def filterVideosNeedingMetadata_def
      videosNeedingMetadata_def metadata_missing_def empty_closure_def isStillIndexing_def
      single_start_def empty_state_def Let_def)
  show ?thesis using parseHashtags_male_tech u a b c d by blast
qed

subsection \<open>MetadataIngestionScheduler: failures of one operation\<close>

lemma generation_failure_is_isolated:
  assumes "generated = Throws e \<or> generated = Returns []"
  shows "fst (single_generated adsIndexId video generated st) = Settled False"
    and "video_id video \<notin> set (videosInProcessing (snd (single_generated adsIndexId video generated st)))"
    and "processedVideoIds (snd (single_generated adsIndexId video generated st)) = processedVideoIds st"
    and "calls (snd (single_generated adsIndexId video generated st)) = calls st"
  using assms by (auto simp: single_generated_def remove_from_processing_def Let_def)

lemma persist_error_is_isolated:
  shows "fst (single_persisted video md (Throws e) st) = Settled False"
    and "video_id video \<notin> set (videosInProcessing (snd (single_persisted video md (Throws e) st)))"
    and "processedVideoIds (snd (single_persisted video md (Throws e) st)) = processedVideoIds st"
  by (auto simp: single_persisted_def remove_from_processing_def Let_def)

text \<open>
  Claim C6, at a failing input. The metadata update of \<open>v1\<close> returns \<^verbatim>\<open>false\<close>. The
  operation does not look at the returned value: it updates the item on the page, adds
  the id to the processed ids and resolves to \<^verbatim>\<open>true\<close>, as for a success.
\<close>

theorem persist_false_counts_as_success:
  "updateVideoMetadata persist_refused ''v1'' ''ads'' (parseHashtags ''#tech'') = Returns False
   \<and> processVideoMetadataSingle persist_refused ''ads'' empty_closure (new_video ''v1'') empty_state
     = (True, \<lparr>processedVideoIds = {''v1''}, videosInProcessing = [],
               calls = [Generate ''v1'', Persist ''v1'' ''ads'' (parseHashtags ''#tech''),
                        UiUpdate ''v1'' (parseHashtags ''#tech'')]\<rparr>)"
  by (simp add: processVideoMetadataSingle_def single_start_def single_generated_def
      single_persisted_def persist_refused_def new_video_def empty_closure_def empty_state_def
      metadata_missing_def remove_from_processing_def Let_def)

subsection \<open>MetadataIngestionScheduler: groups and the concurrency limit\<close>

lemma length_batch_at: "length (batch_at limit i vs) \<le> limit"
  by (simp add: batch_at_def)

lemma batches_are_consecutive:
  "concat (map (\<lambda>n. batch_at limit (n * limit) vs) [0..<m]) = take (m * limit) vs"
proof (induction m)
  case 0
  show ?case by simp
next
  case (Suc m)
  have "Suc m * limit = m * limit + limit" by simp
  then have "take (Suc m * limit) vs = take (m * limit) vs @ take limit (drop (m * limit) vs)"
    by (simp only: take_add)
  then show ?case using Suc by (simp add: batch_at_def)
qed

lemma length_in_flight: "length (in_flight ops) \<le> length ops"
  by (simp add: in_flight_def)

text \<open>
  Starting a group starts one operation per video of the group, and appends to
  \<^verbatim>\<open>videosInProcessing\<close> the ids of those that are then in flight.
\<close>

lemma single_start_effect:
  assumes "single_start adsIndexId cl v st = (ph, st1)"
  shows "videosInProcessing st1 = videosInProcessing st @ ids_in_flight [(v, ph)]"
  using assms
  by (auto simp add: single_start_def Let_def ids_in_flight_def in_flight_def settled_def
      split: if_splits)

lemma ids_in_flight_Cons:
  "ids_in_flight (x # ops) = ids_in_flight [x] @ ids_in_flight ops"
  by (simp add: ids_in_flight_def in_flight_def)

lemma start_batch_effect:
  "start_batch adsIndexId cl batch st = (ops, st') \<Longrightarrow>
   map fst ops = batch \<and> videosInProcessing st' = videosInProcessing st @ ids_in_flight ops"
proof (induction batch arbitrary: st ops st')
  case Nil
  then show ?case by (simp add: ids_in_flight_def in_flight_def)
next
  case (Cons v batch)
  obtain ph st1 where 1: "single_start adsIndexId cl v st = (ph, st1)"
    by (cases "single_start adsIndexId cl v st")
  obtain ops2 st2 where 2: "start_batch adsIndexId cl batch st1 = (ops2, st2)"
    by (cases "start_batch adsIndexId cl batch st1")
  have o: "ops = (v, ph) # ops2" and s: "st' = st2" using Cons.prems 1 2 by simp_all
  have "videosInProcessing st2 = videosInProcessing st1 @ ids_in_flight ops2"
    using Cons.IH[OF 2] by simp
  then have "videosInProcessing st' = videosInProcessing st @ ids_in_flight ops"
    unfolding o s using single_start_effect[OF 1] ids_in_flight_Cons[of "(v, ph)" ops2] by simp
  moreover have "map fst ops = v # batch" using Cons.IH[OF 2] o by simp
  ultimately show ?case by simp
qed

text \<open>
  An operation that receives the outcome of its call either settles, and then its id is
  removed from \<^verbatim>\<open>videosInProcessing\<close>, or goes on waiting, and then
  \<^verbatim>\<open>videosInProcessing\<close> is as before.
\<close>

lemma settle_operation_effect:
  assumes "settle_operation co adsIndexId video ph st = (ph', st')" "\<not> settled ph"
  shows "(settled ph' \<and> videosInProcessing st'
                          = filter (\<lambda>i. i \<noteq> video_id video) (videosInProcessing st))
         \<or> (\<not> settled ph' \<and> videosInProcessing st' = videosInProcessing st)"
proof (cases ph)
  case AwaitGenerate
  then show ?thesis using assms(1)
    by (auto simp add: settle_operation_def single_generated_def remove_from_processing_def
        Let_def settled_def split: outcome.splits if_splits)
next
  case (AwaitPersist md)
  then show ?thesis using assms(1)
    by (auto simp add: settle_operation_def single_persisted_def remove_from_processing_def
        Let_def settled_def split: outcome.splits)
next
  case (Settled b)
  then show ?thesis using assms(2) by (simp add: settled_def)
qed

lemma ids_in_flight_update:
  assumes "k < length ops" "\<not> settled (snd (ops ! k))"
  shows "mset (ids_in_flight (ops[k := (fst (ops ! k), ph)]))
         = (if settled ph then mset (ids_in_flight ops) - {#video_id (fst (ops ! k))#}
            else mset (ids_in_flight ops))"
proof -
  have o: "ops = take k ops @ ops ! k # drop (Suc k) ops"
    using assms(1) by (rule id_take_nth_drop)
  have u: "ops[k := (fst (ops ! k), ph)] = take k ops @ (fst (ops ! k), ph) # drop (Suc k) ops"
    using assms(1) by (rule upd_conv_take_nth_drop)
  have "mset (ids_in_flight ops)
        = mset (ids_in_flight (take k ops)) + {#video_id (fst (ops ! k))#}
          + mset (ids_in_flight (drop (Suc k) ops))"
    by (subst o) (simp add: ids_in_flight_def in_flight_def assms(2))
  moreover have "mset (ids_in_flight (ops[k := (fst (ops ! k), ph)]))
        = mset (ids_in_flight (take k ops))
          + (if settled ph then {#} else {#video_id (fst (ops ! k))#})
          + mset (ids_in_flight (drop (Suc k) ops))"
    unfolding u by (simp add: ids_in_flight_def in_flight_def)
  ultimately show ?thesis by simp
qed

lemma filter_subset_remove:
  assumes "M \<subseteq># N"
  shows "filter_mset (\<lambda>i. i \<noteq> a) M \<subseteq># N - {#a#}"
proof (rule mset_subset_eqI)
  fix x
  have c: "count M x \<le> count N x" using assms by (rule mset_subset_eq_count)
  show "count (filter_mset (\<lambda>i. i \<noteq> a) M) x \<le> count (N - {#a#}) x"
  proof (cases "x = a")
    case True
    then show ?thesis by simp
  next
    case False
    then show ?thesis using c by simp
  qed
qed

lemma one_pass_inv_step:
  assumes inv: "one_pass_inv limit s" and nb: "\<not> is_DelayedCall e"
  shows "one_pass_inv limit (ingestion_step co adsIndexId recentUploads limit s e)"
proof (cases "passes s")
  case Nil
  have "ingestion_step co adsIndexId recentUploads limit s e = s"
    using Nil nb
    by (cases e) (simp_all add: ingestion_step_def is_DelayedCall_def next_group_def
        operation_settles_def finish_pass_def)
  then show ?thesis using inv by simp
next
  case (Cons P rest)
  then have ps: "passes s = [P]" using inv by (simp add: one_pass_inv_def)
  have lr: "length (running P) \<le> limit"
    and sub: "mset (videosInProcessing (sched s)) \<subseteq># mset (ids_in_flight (running P))"
    using inv ps by (simp_all add: one_pass_inv_def)
  have keep: "one_pass_inv limit s'"
    if "passes s' = [P']" "length (running P') \<le> limit"
       "mset (videosInProcessing (sched s')) \<subseteq># mset (ids_in_flight (running P'))" for s' P'
    using that by (simp add: one_pass_inv_def)
  have settles: "one_pass_inv limit (operation_settles co adsIndexId waiting p k s)"
    if w: "\<And>ph. waiting ph \<Longrightarrow> \<not> settled ph" for waiting p k
  proof (cases "p < length (passes s) \<and> k < length (running (passes s ! p))
         \<and> waiting (snd (running (passes s ! p) ! k))")
    case False
    then have "operation_settles co adsIndexId waiting p k s = s"
      by (auto simp add: operation_settles_def)
    then show ?thesis using inv by simp
  next
    case True
    then have p0: "p = 0" using ps by simp
    have P: "passes s ! p = P" using ps p0 by simp
    have k: "k < length (running P)" and ns: "\<not> settled (snd (running P ! k))"
      using True P w by auto
    obtain ph st' where r: "settle_operation co adsIndexId (fst (running P ! k))
                   (snd (running P ! k)) (sched s) = (ph, st')"
      by (cases "settle_operation co adsIndexId (fst (running P ! k))
                   (snd (running P ! k)) (sched s)")
    define P' where "P' = P\<lparr>running := (running P)[k := (fst (running P ! k), ph)]\<rparr>"
    have e: "operation_settles co adsIndexId waiting p k s = s\<lparr>sched := st', passes := [P']\<rparr>"
      using True r P ps p0 by (simp add: operation_settles_def P'_def)
    have l: "length (running P') \<le> limit" using lr by (simp add: P'_def)
    have m: "mset (videosInProcessing st') \<subseteq># mset (ids_in_flight (running P'))"
    proof (cases "settled ph")
      case True
      then have v: "videosInProcessing st'
          = filter (\<lambda>i. i \<noteq> video_id (fst (running P ! k))) (videosInProcessing (sched s))"
        using settle_operation_effect[OF r ns] by simp
      have "mset (ids_in_flight (running P'))
          = mset (ids_in_flight (running P)) - {#video_id (fst (running P ! k))#}"
        using ids_in_flight_update[OF k ns, of ph] True by (simp add: P'_def)
      then show ?thesis unfolding v
        using filter_subset_remove[OF sub, of "video_id (fst (running P ! k))"] by simp
    next
      case False
      then have v: "videosInProcessing st' = videosInProcessing (sched s)"
        using settle_operation_effect[OF r ns] by simp
      have "mset (ids_in_flight (running P')) = mset (ids_in_flight (running P))"
        using ids_in_flight_update[OF k ns, of ph] False by (simp add: P'_def)
      then show ?thesis unfolding v using sub by simp
    qed
    show ?thesis unfolding e by (rule keep[of _ P']) (use l m in simp_all)
  qed
  show ?thesis
  proof (cases e)
    case (DelayedCall seen_skip cl allVideos)
    then show ?thesis using nb by (simp add: is_DelayedCall_def)
  next
    case (NextGroup p)
    show ?thesis
    proof (cases "p < length (passes s) \<and> \<not> finished (passes s ! p)
         \<and> all_settled (running (passes s ! p))
         \<and> loop_index (passes s ! p) < length (pass_videos (passes s ! p))")
      case False
      then have "next_group adsIndexId limit p s = s" by (auto simp add: next_group_def)
      then show ?thesis using inv NextGroup by (simp add: ingestion_step_def)
    next
      case True
      then have p0: "p = 0" using ps by simp
      have P: "passes s ! p = P" using ps p0 by simp
      have "in_flight (running P) = []"
        using True P by (simp add: all_settled_def in_flight_def list_all_iff filter_empty_conv)
      then have empty: "videosInProcessing (sched s) = []"
        using sub by (simp add: ids_in_flight_def)
      obtain ops st' where r: "start_batch adsIndexId (pass_closure P)
                   (batch_at limit (loop_index P) (pass_videos P)) (sched s) = (ops, st')"
        by (cases "start_batch adsIndexId (pass_closure P)
                   (batch_at limit (loop_index P) (pass_videos P)) (sched s)")
      define P' where "P' = P\<lparr>loop_index := loop_index P + limit, running := ops\<rparr>"
      have e: "next_group adsIndexId limit p s = s\<lparr>sched := st', passes := [P']\<rparr>"
        using True r P ps p0 by (simp add: next_group_def P'_def)
      have "length ops = length (batch_at limit (loop_index P) (pass_videos P))"
        using start_batch_effect[OF r] by (metis length_map)
      then have l: "length (running P') \<le> limit"
        using length_batch_at[of limit "loop_index P" "pass_videos P"] by (simp add: P'_def)
      have m: "videosInProcessing st' = ids_in_flight (running P')"
        using start_batch_effect[OF r] empty by (simp add: P'_def)
      have "one_pass_inv limit (s\<lparr>sched := st', passes := [P']\<rparr>)"
        by (rule keep[of _ P']) (use l m in simp_all)
      then show ?thesis using NextGroup e by (simp add: ingestion_step_def)
    qed
  next
    case (GenerateSettles p k)
    have "one_pass_inv limit (operation_settles co adsIndexId waits_for_generate p k s)"
      by (rule settles) (simp add: waits_for_generate_def settled_def split: phase.splits)
    then show ?thesis using GenerateSettles by (simp add: ingestion_step_def)
  next
    case (PersistSettles p k)
    have "one_pass_inv limit (operation_settles co adsIndexId waits_for_persist p k s)"
      by (rule settles) (simp add: waits_for_persist_def settled_def split: phase.splits)
    then show ?thesis using PersistSettles by (simp add: ingestion_step_def)
  next
    case (PassFinishes p)
    show ?thesis
    proof (cases "p < length (passes s) \<and> \<not> finished (passes s ! p)
         \<and> all_settled (running (passes s ! p))
         \<and> \<not> loop_index (passes s ! p) < length (pass_videos (passes s ! p))")
      case False
      then have "finish_pass p s = s" by (auto simp add: finish_pass_def)
      then show ?thesis using inv PassFinishes by (simp add: ingestion_step_def)
    next
      case True
      then have p0: "p = 0" using ps by simp
      have e: "finish_pass p s
          = s\<lparr>sched := (sched s)\<lparr>videosInProcessing := []\<rparr>, passes := [P\<lparr>finished := True\<rparr>]\<rparr>"
        using True ps p0 by (simp add: finish_pass_def)
      have "one_pass_inv limit (finish_pass p s)"
        unfolding e by (rule keep[of _ "P\<lparr>finished := True\<rparr>"]) (use lr in simp_all)
      then show ?thesis using PassFinishes by (simp add: ingestion_step_def)
    qed
  qed
qed

lemma one_pass_inv_run:
  assumes "one_pass_inv limit s" "\<not> list_ex is_DelayedCall es"
  shows "one_pass_inv limit (run_ingestion co adsIndexId recentUploads limit s es)"
  using assms
proof (induction es arbitrary: s)
  case Nil
  then show ?case by (simp add: run_ingestion_def)
next
  case (Cons e es)
  have 1: "one_pass_inv limit (ingestion_step co adsIndexId recentUploads limit s e)"
    using Cons.prems by (intro one_pass_inv_step) simp_all
  have "run_ingestion co adsIndexId recentUploads limit s (e # es)
      = run_ingestion co adsIndexId recentUploads limit
          (ingestion_step co adsIndexId recentUploads limit s e) es"
    by (simp add: run_ingestion_def)
  then show ?case using Cons.IH[OF 1] Cons.prems(2) by simp
qed

lemma one_pass_inv_begin:
  assumes "passes s = []" "videosInProcessing (sched s) = []"
  shows "one_pass_inv limit (delayed_call adsIndexId recentUploads seen_skip cl allVideos s)"
  using assms
  by (simp add: one_pass_inv_def delayed_call_def begin_pass_def ids_in_flight_def
      in_flight_def Let_def)

text \<open>
  While a single pass runs on a page that was idle, whatever the order in which the
  calls of its operations settle: the ids in \<^verbatim>\<open>videosInProcessing\<close> are at most
  \<open>limit\<close>, and so are the operations in flight. The groups are consecutive slices of
  at most \<open>limit\<close> eligible videos.
\<close>

lemma one_pass_bounded:
  assumes "passes s0 = []" "videosInProcessing (sched s0) = []" "\<not> list_ex is_DelayedCall es"
    and "s = run_ingestion co adsIndexId recentUploads limit
               (delayed_call adsIndexId recentUploads seen_skip cl allVideos s0) es"
  shows "length (videosInProcessing (sched s)) \<le> limit"
    and "\<forall>P\<in>set (passes s). length (in_flight (running P)) \<le> limit"
proof -
  have inv: "one_pass_inv limit s"
    unfolding assms(4)
    by (rule one_pass_inv_run[OF one_pass_inv_begin[OF assms(1,2)] assms(3)])
  show 2: "\<forall>P\<in>set (passes s). length (in_flight (running P)) \<le> limit"
  proof
    fix P assume "P \<in> set (passes s)"
    then have "length (running P) \<le> limit" using inv by (simp add: one_pass_inv_def)
    then show "length (in_flight (running P)) \<le> limit"
      using length_in_flight[of "running P"] by arith
  qed
  show "length (videosInProcessing (sched s)) \<le> limit"
  proof (cases "passes s")
    case Nil
    then show ?thesis using inv by (simp add: one_pass_inv_def)
  next
    case (Cons P rest)
    then have P: "P \<in> set (passes s)" by simp
    then have "mset (videosInProcessing (sched s)) \<subseteq># mset (ids_in_flight (running P))"
      using inv by (simp add: one_pass_inv_def)
    then have "size (mset (videosInProcessing (sched s))) \<le> size (mset (ids_in_flight (running P)))"
      by (rule size_mset_mono)
    then have "length (videosInProcessing (sched s)) \<le> length (in_flight (running P))"
      by (simp add: ids_in_flight_def)
    then show ?thesis using 2 P by fastforce
  qed
qed

lemma one_pass_example:
  "run_ingestion persist_refused ''ads'' [] 2 idle_page one_pass_events =
     \<lparr>sched = \<lparr>processedVideoIds = {}, videosInProcessing = [''a'', ''b''],
               calls = [Generate ''a'', Generate ''b'']\<rparr>,
      passes = [\<lparr>pass_closure = empty_closure, pass_videos = three_videos, loop_index = 2,
                 running = [(new_video ''a'', AwaitGenerate), (new_video ''b'', AwaitGenerate)],
                 finished = False\<rparr>]\<rparr>"
  by (simp add: run_ingestion_def one_pass_events_def idle_page_def ingestion_step_def
      delayed_call_def filterVideosNeedingMetadata_def
      begin_pass_def next_group_def videosNeedingMetadata_def isStillIndexing_def
      three_videos_def new_video_def empty_closure_def empty_state_def metadata_missing_def
      all_settled_def batch_at_def single_start_def Let_def)

lemmas ingestion_eval =
  run_ingestion_def idle_page_def ingestion_step_def
  delayed_call_def filterVideosNeedingMetadata_def
  begin_pass_def next_group_def operation_settles_def settle_operation_def
  waits_for_generate_def videosNeedingMetadata_def isStillIndexing_def
  new_video_def empty_closure_def empty_state_def metadata_missing_def
  all_settled_def settled_def batch_at_def single_start_def single_generated_def
  remove_from_processing_def generation_fails_def Let_def

lemma first_pass_second_group:
  "run_ingestion generation_fails ''ads'' [] CONCURRENCY_LIMIT idle_page
       ([DelayedCall False empty_closure twenty_videos, NextGroup 0]
        @ map (GenerateSettles 0) [0, 1, 2, 3, 4, 5, 6, 7, 8, 9] @ [NextGroup 0]) =
     \<lparr>sched = \<lparr>processedVideoIds = {},
               videosInProcessing =
                 [''k'', ''l'', ''m'', ''n'', ''o'', ''p'', ''q'', ''r'', ''s'', ''t''],
               calls = map Generate
                 [''a'', ''b'', ''c'', ''d'', ''e'', ''f'', ''g'', ''h'', ''i'', ''j'',
                  ''k'', ''l'', ''m'', ''n'', ''o'', ''p'', ''q'', ''r'', ''s'', ''t'']\<rparr>,
      passes = [\<lparr>pass_closure = empty_closure, pass_videos = twenty_videos, loop_index = 20,
                 running = map (\<lambda>i. (new_video i, AwaitGenerate))
                   [''k'', ''l'', ''m'', ''n'', ''o'', ''p'', ''q'', ''r'', ''s'', ''t''],
                 finished = False\<rparr>]\<rparr>"
  by (simp add: ingestion_eval twenty_videos_def CONCURRENCY_LIMIT_def)

lemma two_passes_state:
  "run_ingestion generation_fails ''ads'' [] CONCURRENCY_LIMIT idle_page two_passes_events =
     \<lparr>sched = \<lparr>processedVideoIds = {},
               videosInProcessing =
                 [''k'', ''l'', ''m'', ''n'', ''o'', ''p'', ''q'', ''r'', ''s'', ''t'',
                  ''a'', ''b'', ''c'', ''d'', ''e'', ''f'', ''g'', ''h'', ''i'', ''j''],
               calls = map Generate
                 [''a'', ''b'', ''c'', ''d'', ''e'', ''f'', ''g'', ''h'', ''i'', ''j'',
                  ''k'', ''l'', ''m'', ''n'', ''o'', ''p'', ''q'', ''r'', ''s'', ''t'',
                  ''a'', ''b'', ''c'', ''d'', ''e'', ''f'', ''g'', ''h'', ''i'', ''j'']\<rparr>,
      passes = [\<lparr>pass_closure = empty_closure, pass_videos = twenty_videos, loop_index = 20,
                 running = map (\<lambda>i. (new_video i, AwaitGenerate))
                   [''k'', ''l'', ''m'', ''n'', ''o'', ''p'', ''q'', ''r'', ''s'', ''t''],
                 finished = False\<rparr>,
                \<lparr>pass_closure = empty_closure, pass_videos = twenty_videos, loop_index = 10,
                 running = map (\<lambda>i. (new_video i, AwaitGenerate))
                   [''a'', ''b'', ''c'', ''d'', ''e'', ''f'', ''g'', ''h'', ''i'', ''j''],
                 finished = False\<rparr>]\<rparr>"
proof -
  have "run_ingestion generation_fails ''ads'' [] CONCURRENCY_LIMIT idle_page two_passes_events
      = run_ingestion generation_fails ''ads'' [] CONCURRENCY_LIMIT
          (run_ingestion generation_fails ''ads'' [] CONCURRENCY_LIMIT idle_page
             ([DelayedCall False empty_closure twenty_videos, NextGroup 0]
              @ map (GenerateSettles 0) [0, 1, 2, 3, 4, 5, 6, 7, 8, 9] @ [NextGroup 0]))
          [DelayedCall False empty_closure twenty_videos, NextGroup 1]"
    unfolding two_passes_events_def run_ingestion_def by simp
  then show ?thesis unfolding first_pass_second_group
    by (simp add: ingestion_eval twenty_videos_def CONCURRENCY_LIMIT_def)
qed

text \<open>
  Claim C5, at a failing input. The page shows twenty videos without metadata, and the
  effect on the video data runs twice, at 0 ms and at 90 ms, before any pass has
  started. Each run sets up a delayed call, nothing cancels the first, and the callback
  of each holds the flags and the id sets of its own render: both calls start a pass,
  at 100 ms and at 190 ms, and two passes run at once. The first pass has started its
  second group of ten when the second pass starts its first group of ten: twenty
  different ids are in \<^verbatim>\<open>videosInProcessing\<close>, twice the limit of 10.
\<close>

theorem two_passes_exceed_limit:
  "CONCURRENCY_LIMIT = 10
   \<and> pass_starts (run_events initial_page two_calls_events) = [100, 190]
   \<and> pass_ends (run_events initial_page two_calls_events) = []
   \<and> passes_running (run_events initial_page two_calls_events) = 2
   \<and> videosInProcessing (sched (run_ingestion generation_fails ''ads'' [] CONCURRENCY_LIMIT
         idle_page two_passes_events))
       = [''k'', ''l'', ''m'', ''n'', ''o'', ''p'', ''q'', ''r'', ''s'', ''t'',
          ''a'', ''b'', ''c'', ''d'', ''e'', ''f'', ''g'', ''h'', ''i'', ''j'']
   \<and> map (\<lambda>P. ids_in_flight (running P))
         (passes (run_ingestion generation_fails ''ads'' [] CONCURRENCY_LIMIT
            idle_page two_passes_events))
       = [[''k'', ''l'', ''m'', ''n'', ''o'', ''p'', ''q'', ''r'', ''s'', ''t''],
          [''a'', ''b'', ''c'', ''d'', ''e'', ''f'', ''g'', ''h'', ''i'', ''j'']]
   \<and> distinct (videosInProcessing (sched (run_ingestion generation_fails ''ads'' []
         CONCURRENCY_LIMIT idle_page two_passes_events)))
   \<and> length (videosInProcessing (sched (run_ingestion generation_fails ''ads'' []
         CONCURRENCY_LIMIT idle_page two_passes_events))) = 20"
proof -
  have 1: "run_events initial_page two_calls_events =
     \<lparr>processingMetadata = True, skipMetadataProcessing = True, clock = 190, timers = [],
      passes_running = 2, pass_starts = [100, 190], pass_ends = []\<rparr>"
    by (simp add: run_events_def initial_page_def two_calls_events_def fire_def start_pass_def)
  show ?thesis unfolding 1 two_passes_state
    by (simp add: CONCURRENCY_LIMIT_def ids_in_flight_def in_flight_def settled_def new_video_def)
qed

subsection \<open>MetadataIngestionScheduler: the guard against a second pass\<close>

lemma running_step:
  assumes "stage_running s0 s" "e \<noteq> InfiniteScroll"
  shows "stage_running s0 (page_step s e) \<or> stage_cooldown s0 (page_step s e)"
proof (cases e)
  case (Tick d)
  then show ?thesis using assms(1) by (simp add: stage_running_def)
next
  case (EffectRun pages needy)
  then show ?thesis using assms(1) by (simp add: stage_running_def)
next
  case (TimerFires k)
  then show ?thesis using assms(1) by (simp add: stage_running_def)
next
  case PassEnds
  have "stage_cooldown s0 (page_step s PassEnds)"
    unfolding stage_cooldown_def using assms(1)
    by (intro exI[of _ "clock s"]) (simp add: stage_running_def)
  then show ?thesis using PassEnds by simp
next
  case InfiniteScroll
  then show ?thesis using assms(2) by simp
qed

lemma cooldown_step:
  assumes "stage_cooldown s0 s" "e \<noteq> InfiniteScroll"
  shows "stage_cooldown s0 (page_step s e) \<or> stage_after s0 (page_step s e)"
proof -
  from assms(1) obtain tc where c: "\<not> processingMetadata s" "skipMetadataProcessing s"
    "passes_running s = 0" "timers s = [(tc + 2000, ReenableProcessing)]"
    "pass_starts s = pass_starts s0" "pass_ends s = pass_ends s0 @ [tc]"
    unfolding stage_cooldown_def by (elim exE conjE)
  show ?thesis
  proof (cases e)
    case (Tick d)
    have "stage_cooldown s0 (page_step s (Tick d))"
      unfolding stage_cooldown_def using c by (intro exI[of _ tc]) simp
    then show ?thesis using Tick by simp
  next
    case (EffectRun pages needy)
    then have "page_step s e = s" using c(2) by simp
    then show ?thesis using assms(1) by simp
  next
    case (TimerFires k)
    show ?thesis
    proof (cases "k < length (timers s) \<and> fst (timers s ! k) \<le> clock s")
      case False
      then have "page_step s e = s" using TimerFires by auto
      then show ?thesis using assms(1) by simp
    next
      case True
      then have k: "k = 0" using c(4) by simp
      have due: "tc + 2000 \<le> clock s" using True c(4) k by simp
      have "stage_after s0 (page_step s (TimerFires 0))"
        unfolding stage_after_def using c due
        by (intro exI[of _ tc] exI[of _ "[]"]) (simp add: fire_def)
      then show ?thesis using TimerFires k by simp
    qed
  next
    case PassEnds
    then have "page_step s e = s" using c(3) by simp
    then show ?thesis using assms(1) by simp
  next
    case InfiniteScroll
    then show ?thesis using assms(2) by simp
  qed
qed

lemma after_step:
  assumes "stage_after s0 s"
  shows "stage_after s0 (page_step s e)"
proof -
  from assms obtain tc more new where a: "pass_ends s = pass_ends s0 @ tc # more"
    "pass_starts s = pass_starts s0 @ new" "\<forall>t\<in>set new. tc + 2000 \<le> t" "tc + 2000 \<le> clock s"
    unfolding stage_after_def by (elim exE conjE)
  have keep: "stage_after s0 s'"
    if "pass_ends s' = pass_ends s" "pass_starts s' = pass_starts s" "clock s \<le> clock s'" for s'
    unfolding stage_after_def using a that
    by (intro exI[of _ tc] exI[of _ more] exI[of _ new]) simp
  show ?thesis
  proof (cases e)
    case (Tick d)
    then show ?thesis using keep[of "page_step s e"] by simp
  next
    case (EffectRun pages needy)
    then show ?thesis using keep[of "page_step s e"] by simp
  next
    case InfiniteScroll
    then show ?thesis using keep[of "page_step s e"] by simp
  next
    case PassEnds
    show ?thesis
    proof (cases "0 < passes_running s")
      case False
      then show ?thesis using PassEnds assms by simp
    next
      case True
      have "stage_after s0 (page_step s PassEnds)"
        unfolding stage_after_def using a True
        by (intro exI[of _ tc] exI[of _ "more @ [clock s]"] exI[of _ new]) simp
      then show ?thesis using PassEnds by simp
    qed
  next
    case (TimerFires k)
    show ?thesis
    proof (cases "k < length (timers s) \<and> fst (timers s ! k) \<le> clock s")
      case False
      then have "page_step s e = s" using TimerFires by auto
      then show ?thesis using assms by simp
    next
      case True
      define s1 where "s1 = s\<lparr>timers := take k (timers s) @ drop (Suc k) (timers s)\<rparr>"
      have e: "page_step s e = fire (snd (timers s ! k)) s1"
        using True TimerFires by (simp add: s1_def)
      show ?thesis
      proof (cases "snd (timers s ! k)")
        case ReenableProcessing
        then have "page_step s e = s1\<lparr>skipMetadataProcessing := False\<rparr>"
          using e by (simp add: fire_def)
        then show ?thesis using keep[of "page_step s e"] by (simp add: s1_def)
      next
        case (RunPass seen_skip needy)
        show ?thesis
        proof (cases "seen_skip \<or> \<not> needy")
          case True
          then have "page_step s e = s1" using e RunPass by (simp add: fire_def start_pass_def)
          then show ?thesis using keep[of "page_step s e"] by (simp add: s1_def)
        next
          case False
          then have p: "page_step s e = s1\<lparr>processingMetadata := True, skipMetadataProcessing := True,
             passes_running := passes_running s1 + 1,
             pass_starts := pass_starts s1 @ [clock s1]\<rparr>"
            using e RunPass by (simp add: fire_def start_pass_def)
          show ?thesis unfolding stage_after_def p using a
            by (intro exI[of _ tc] exI[of _ more] exI[of _ "new @ [clock s]"]) (simp add: s1_def)
        qed
      qed
    qed
  qed
qed

lemma stage_step:
  assumes "stage_running s0 s \<or> stage_cooldown s0 s \<or> stage_after s0 s" "e \<noteq> InfiniteScroll"
  shows "stage_running s0 (page_step s e) \<or> stage_cooldown s0 (page_step s e)
       \<or> stage_after s0 (page_step s e)"
proof -
  consider (r) "stage_running s0 s" | (c) "stage_cooldown s0 s" | (a) "stage_after s0 s"
    using assms(1) by blast
  then show ?thesis
  proof cases
    case r
    then show ?thesis using running_step[OF r assms(2)] by blast
  next
    case c
    then show ?thesis using cooldown_step[OF c assms(2)] by blast
  next
    case a
    then show ?thesis using after_step[OF a, of e] by blast
  qed
qed

lemma stage_run:
  assumes "stage_running s0 s \<or> stage_cooldown s0 s \<or> stage_after s0 s"
    and "InfiniteScroll \<notin> set es"
  shows "stage_running s0 (run_events s es) \<or> stage_cooldown s0 (run_events s es)
       \<or> stage_after s0 (run_events s es)"
  using assms
proof (induction es arbitrary: s)
  case Nil
  then show ?case by (simp add: run_events_def)
next
  case (Cons e es)
  have ne: "e \<noteq> InfiniteScroll" using Cons.prems(2) by auto
  have 1: "stage_running s0 (page_step s e) \<or> stage_cooldown s0 (page_step s e)
       \<or> stage_after s0 (page_step s e)"
    by (rule stage_step[OF Cons.prems(1) ne])
  have 2: "InfiniteScroll \<notin> set es" using Cons.prems(2) by simp
  have "run_events s (e # es) = run_events (page_step s e) es" by (simp add: run_events_def)
  then show ?case using Cons.IH[OF 1 2] by simp
qed

lemma pass_alone_stage: "pass_alone s0 \<Longrightarrow> stage_running s0 s0"
  by (simp add: pass_alone_def stage_running_def)

lemma first_pass_state:
  "run_events initial_page first_pass_events =
     \<lparr>processingMetadata = True, skipMetadataProcessing = True, clock = 100, timers = [],
      passes_running = 1, pass_starts = [100], pass_ends = []\<rparr>"
  by (simp add: run_events_def initial_page_def first_pass_events_def fire_def start_pass_def)

lemma quiet_cooldown_state:
  "run_events (run_events initial_page first_pass_events) quiet_cooldown_events =
     \<lparr>processingMetadata = False, skipMetadataProcessing = True, clock = 160,
      timers = [(2150, ReenableProcessing)],
      passes_running = 0, pass_starts = [100], pass_ends = [150]\<rparr>"
  unfolding first_pass_state
  by (simp add: run_events_def quiet_cooldown_events_def)

lemma scroll_after_pass_state:
  "run_events initial_page scroll_after_pass_events =
     \<lparr>processingMetadata = False, skipMetadataProcessing = False, clock = 160,
      timers = [(2150, ReenableProcessing)],
      passes_running = 0, pass_starts = [100], pass_ends = [150]\<rparr>"
  by (simp add: run_events_def initial_page_def scroll_after_pass_events_def fire_def start_pass_def)

lemma scroll_in_cooldown_state:
  "run_events initial_page scroll_in_cooldown_events =
     \<lparr>processingMetadata = True, skipMetadataProcessing = True, clock = 260,
      timers = [(2150, ReenableProcessing)],
      passes_running = 1, pass_starts = [100, 260], pass_ends = [150]\<rparr>"
proof -
  have 1: "run_events initial_page scroll_in_cooldown_events
      = run_events (run_events initial_page scroll_after_pass_events)
          [EffectRun True True, Tick 100, TimerFires 1]"
    by (simp add: run_events_def scroll_in_cooldown_events_def)
  show ?thesis unfolding 1 scroll_after_pass_state
    by (simp add: run_events_def fire_def start_pass_def)
qed

lemma stale_call_state:
  "run_events initial_page stale_call_events =
     \<lparr>processingMetadata = True, skipMetadataProcessing = True, clock = 120,
      timers = [(2110, ReenableProcessing)],
      passes_running = 1, pass_starts = [100, 120], pass_ends = [110]\<rparr>"
  by (simp add: run_events_def initial_page_def stale_call_events_def fire_def start_pass_def)

lemma racing_calls_state:
  "run_events initial_page racing_calls_events =
     \<lparr>processingMetadata = True, skipMetadataProcessing = True, clock = 120,
      timers = [],
      passes_running = 2, pass_starts = [100, 120], pass_ends = []\<rparr>"
  by (simp add: run_events_def initial_page_def racing_calls_events_def fire_def start_pass_def)

lemma stale_reenable_state:
  "run_events initial_page stale_reenable_events =
     \<lparr>processingMetadata = True, skipMetadataProcessing = True, clock = 2250,
      timers = [(2300, ReenableProcessing)],
      passes_running = 1, pass_starts = [100, 260, 2250], pass_ends = [150, 300]\<rparr>"
proof -
  have 1: "run_events initial_page stale_reenable_events
      = run_events (run_events initial_page scroll_in_cooldown_events)
          [Tick 40, PassEnds, Tick 1850, TimerFires 0, EffectRun True True, Tick 100, TimerFires 1]"
    by (simp add: run_events_def stale_reenable_events_def)
  show ?thesis unfolding 1 scroll_in_cooldown_state
    by (simp add: run_events_def fire_def start_pass_def)
qed

text \<open>
  Claim C9 as stated fails, in two ways.

  The infinite scroll: a pass ends at 150 ms; at 160 ms the infinite scroll loads the
  next page and clears \<^verbatim>\<open>skipMetadataProcessing\<close>; the refresh that follows finds
  both flags clear and schedules a pass, which starts at 260 ms, inside the two seconds
  after the end of the first pass.

  A timer that is pending when a pass starts, with no infinite scroll at all. Two
  refreshes at 0 ms and 20 ms, before any pass has started, each set up a delayed call,
  and the callback of each holds the flags of its own render. The pass of the first
  call starts at 100 ms. If it ends at 110 ms, the second call starts a pass at 120 ms,
  inside the two seconds; if it is still running at 120 ms, the second call starts a
  second pass beside it, and two passes run at once. In the same way the timer that
  clears the flag two seconds after an earlier pass cuts short the two seconds of a
  later one: the pass that started at 260 ms with that timer pending ends at 300 ms,
  the timer clears the flag at 2150 ms, and a refresh then schedules a pass that starts
  at 2250 ms.
\<close>

theorem pass_starts_in_cooldown_counterexample:
  "pass_ends (run_events initial_page scroll_after_pass_events) = [150]
   \<and> clock (run_events initial_page scroll_after_pass_events) = 160
   \<and> timers (page_step (run_events initial_page scroll_after_pass_events) (EffectRun True True))
       = [(2150, ReenableProcessing), (260, RunPass False True)]
   \<and> pass_starts (run_events initial_page scroll_in_cooldown_events) = [100, 260]
   \<and> pass_ends (run_events initial_page scroll_in_cooldown_events) = [150]
   \<and> (260::nat) < 150 + 2000
   \<and> InfiniteScroll \<notin> set stale_call_events
   \<and> pass_starts (run_events initial_page stale_call_events) = [100, 120]
   \<and> pass_ends (run_events initial_page stale_call_events) = [110]
   \<and> (120::nat) < 110 + 2000
   \<and> InfiniteScroll \<notin> set racing_calls_events
   \<and> pass_starts (run_events initial_page racing_calls_events) = [100, 120]
   \<and> pass_ends (run_events initial_page racing_calls_events) = []
   \<and> passes_running (run_events initial_page racing_calls_events) = 2
   \<and> timers (run_events initial_page scroll_in_cooldown_events) = [(2150, ReenableProcessing)]
   \<and> passes_running (run_events initial_page scroll_in_cooldown_events) = 1
   \<and> pass_starts (run_events initial_page stale_reenable_events) = [100, 260, 2250]
   \<and> pass_ends (run_events initial_page stale_reenable_events) = [150, 300]
   \<and> (2250::nat) < 300 + 2000"
proof -
  have 3: "timers (page_step (run_events initial_page scroll_after_pass_events) (EffectRun True True))
       = [(2150, ReenableProcessing), (260, RunPass False True)]"
    unfolding scroll_after_pass_state by simp
  have 4: "InfiniteScroll \<notin> set stale_call_events \<and> InfiniteScroll \<notin> set racing_calls_events"
    by (simp add: stale_call_events_def racing_calls_events_def)
  show ?thesis
    using 3 4
    unfolding scroll_after_pass_state scroll_in_cooldown_state stale_call_state
      racing_calls_state stale_reenable_state
    by simp
qed

text \<open>
  Claim C9, amended. Take a pass that has just started alone: both flags are set, it is
  the only pass running, and no timer is pending. Whatever happens next, as long as the
  infinite scroll does not load a page: while the pass has not ended, and after it ended
  at \<open>tc\<close> for as long as the clock is below \<open>tc + 2000\<close>, a run of the effect on the
  video data changes nothing, so it schedules no pass; no pass has started since; and at
  most one pass is running, so no two passes race.
\<close>

theorem cooldown_without_scroll:
  "pass_alone s0 \<and> InfiniteScroll \<notin> set es
     \<and> (pass_ends (run_events s0 es) = pass_ends s0
        \<or> (\<exists>tc. pass_ends (run_events s0 es) = pass_ends s0 @ [tc]
                \<and> clock (run_events s0 es) < tc + 2000))
   \<longrightarrow> page_step (run_events s0 es) (EffectRun pages needy) = run_events s0 es
       \<and> pass_starts (run_events s0 es) = pass_starts s0
       \<and> passes_running (run_events s0 es) \<le> 1"
proof (intro impI)
  assume a: "pass_alone s0 \<and> InfiniteScroll \<notin> set es
     \<and> (pass_ends (run_events s0 es) = pass_ends s0
        \<or> (\<exists>tc. pass_ends (run_events s0 es) = pass_ends s0 @ [tc]
                \<and> clock (run_events s0 es) < tc + 2000))"
  define s where "s = run_events s0 es"
  have st: "stage_running s0 s \<or> stage_cooldown s0 s \<or> stage_after s0 s"
    unfolding s_def using stage_run[of s0 s0 es] pass_alone_stage[of s0] a by blast
  have w: "pass_ends s = pass_ends s0
        \<or> (\<exists>tc. pass_ends s = pass_ends s0 @ [tc] \<and> clock s < tc + 2000)"
    using a unfolding s_def by blast
  have na: "\<not> stage_after s0 s"
  proof
    assume "stage_after s0 s"
    then have "\<exists>tc more. pass_ends s = pass_ends s0 @ tc # more \<and> tc + 2000 \<le> clock s"
      unfolding stage_after_def by blast
    then obtain tc more where e: "pass_ends s = pass_ends s0 @ tc # more"
      and c: "tc + 2000 \<le> clock s"
      by blast
    from w show False
    proof
      assume "pass_ends s = pass_ends s0"
      then show False using e by simp
    next
      assume "\<exists>tc. pass_ends s = pass_ends s0 @ [tc] \<and> clock s < tc + 2000"
      then obtain tc' where "pass_ends s = pass_ends s0 @ [tc']" "clock s < tc' + 2000" by blast
      then show False using e c by simp
    qed
  qed
  have flags: "(processingMetadata s \<or> skipMetadataProcessing s) \<and> pass_starts s = pass_starts s0
       \<and> passes_running s \<le> 1"
    using st na by (auto simp: stage_running_def stage_cooldown_def)
  then have "page_step s (EffectRun pages needy) = s" by auto
  then show "page_step (run_events s0 es) (EffectRun pages needy) = run_events s0 es
       \<and> pass_starts (run_events s0 es) = pass_starts s0
       \<and> passes_running (run_events s0 es) \<le> 1"
    using flags unfolding s_def by blast
qed

theorem cooldown_without_scroll_witness:
  "pass_alone (run_events initial_page first_pass_events)
   \<and> InfiniteScroll \<notin> set quiet_cooldown_events
   \<and> pass_ends (run_events (run_events initial_page first_pass_events) quiet_cooldown_events)
       = pass_ends (run_events initial_page first_pass_events) @ [150]
   \<and> clock (run_events (run_events initial_page first_pass_events) quiet_cooldown_events) < 150 + 2000
   \<and> page_step (run_events (run_events initial_page first_pass_events) quiet_cooldown_events)
         (EffectRun True True)
       = run_events (run_events initial_page first_pass_events) quiet_cooldown_events
   \<and> pass_starts (run_events (run_events initial_page first_pass_events) quiet_cooldown_events) = [100]
   \<and> passes_running (run_events (run_events initial_page first_pass_events) quiet_cooldown_events) \<le> 1"
proof -
  let ?start = "run_events initial_page first_pass_events"
  let ?final = "run_events ?start quiet_cooldown_events"
  have h1: "pass_alone ?start" unfolding first_pass_state by (simp add: pass_alone_def)
  have h2: "InfiniteScroll \<notin> set quiet_cooldown_events" by (simp add: quiet_cooldown_events_def)
  have h3: "pass_ends ?final = pass_ends ?start @ [150] \<and> clock ?final < 150 + 2000"
    unfolding quiet_cooldown_state unfolding first_pass_state by simp
  then have h3': "pass_ends ?final = pass_ends ?start
        \<or> (\<exists>tc. pass_ends ?final = pass_ends ?start @ [tc] \<and> clock ?final < tc + 2000)"
    by blast
  have c: "page_step ?final (EffectRun True True) = ?final \<and> pass_starts ?final = pass_starts ?start
       \<and> passes_running ?final \<le> 1"
    using cooldown_without_scroll[of ?start quiet_cooldown_events True True] h1 h2 h3' by blast
  have "pass_starts ?start = [100]" unfolding first_pass_state by simp
  then show ?thesis using h1 h2 h3 c by simp
qed

end
